theory Spec2Isabelle
  imports Main "HOL-Library.AList" "HOL-Library.Multiset"
begin

section \<open>Python values\<close>

text \<open>
  The module \<^verbatim>\<open>dagger/client/_core.py\<close> builds a chain of field selections, compiles
  it into one request and decodes the response. The values that travel through it
  (arguments, response payloads, decoded results) are Python objects; \<open>pyval\<close> is their
  content. \<open>VMissing\<close> is the sentinel \<^verbatim>\<open>dataclasses.MISSING\<close>, \<open>VScalar c s\<close> an
  instance of the \<^verbatim>\<open>str\<close> subclass \<open>c\<close> (a generated scalar such as an identifier),
  \<open>VInput\<close> an instance of a dataclass deriving from \<^verbatim>\<open>Input\<close> with its fields,
  and \<open>VObj c ctx attrs\<close> an instance of the generated \<^verbatim>\<open>Type\<close> subclass \<open>c\<close>, bound
  to the Context whose selection deque lives at \<open>ctx\<close>, with the slot attributes that
  have been assigned to it.
\<close>

type_synonym addr = nat

datatype pyval =
    VNone
  | VMissing
  | VBool bool
  | VInt int
  | VStr string
  | VScalar string string
  | VList "pyval list"
  | VTuple "pyval list"
  | VDict "(string \<times> pyval) list"
  | VInput "(string \<times> pyval) list"
  | VObj string addr "(string \<times> pyval) list"

text \<open>
  The test \<^verbatim>\<open>arg.value is not arg.default\<close> of \<^verbatim>\<open>Context.select\<close> compares object
  identities, not contents, so an argument value is an object: an identity and a
  content. \<^verbatim>\<open>None\<close>, \<^verbatim>\<open>True\<close>, \<^verbatim>\<open>False\<close> and \<^verbatim>\<open>MISSING\<close> are singletons: each is
  one object whatever identity the model gives it, so two of them are the same object
  when their contents agree. Any other two objects are the same object when their
  identities agree.
\<close>

datatype pyobj = Obj (ident: nat) (content: pyval)

fun singleton :: "pyval \<Rightarrow> bool" where
  "singleton VNone = True"
| "singleton VMissing = True"
| "singleton (VBool b) = True"
| "singleton v = False"

definition is_same :: "pyobj \<Rightarrow> pyobj \<Rightarrow> bool" where
  "is_same a b =
     (if singleton (content a) \<or> singleton (content b) then content a = content b
      else ident a = ident b)"

definition is_not :: "pyobj \<Rightarrow> pyobj \<Rightarrow> bool" where
  "is_not a b = (\<not> is_same a b)"

definition MISSING :: pyobj where
  "MISSING = Obj 0 VMissing"

subsection \<open>Dictionaries\<close>

text \<open>
  A \<^verbatim>\<open>dict\<close> is an association list in insertion order. \<^verbatim>\<open>d[k] = v\<close> is
  \<^const>\<open>AList.update\<close>: it overwrites the entry of an existing key where it stands and
  appends a new key at the end. A dict comprehension inserts its items one by one.
\<close>

definition dict_of :: "(string \<times> 'v) list \<Rightarrow> (string \<times> 'v) list" where
  "dict_of items = foldl (\<lambda>d kv. AList.update (fst kv) (snd kv) d) [] items"

section \<open>The query builder's output and the exceptions\<close>

text \<open>
  \<open>dsl_field\<close> is what the schema-aware query builder (\<^verbatim>\<open>gql.dsl\<close>) returns for a
  field: the type it was looked up on, its name, the arguments applied to it and the
  sub-selection attached to it, each child under its alias. \<^verbatim>\<open>dsl_gql(DSLQuery(f))\<close>
  wraps the root field into a document.
\<close>

datatype dsl_field = DSLField string string "(string \<times> pyval) list" "(string \<times> dsl_field) list"

datatype document = DSLQuery dsl_field

text \<open>
  Exceptions are values. The first group are the classes the session can raise
  (\<^verbatim>\<open>httpx.TimeoutException\<close> is a subclass of \<^verbatim>\<open>httpx.RequestError\<close>; here
  \<open>HttpxRequestError\<close> stands for the request errors that are not timeouts), each
  with its message, the query error also with its error payload. The second group
  are the errors of the \<^verbatim>\<open>dagger\<close> package, the third the built-in ones.
  \<open>From e c\<close> is \<^verbatim>\<open>raise e from c\<close>: the exception \<open>e\<close> with cause \<open>c\<close>.
\<close>

datatype exn =
    HttpxTimeoutException string
  | HttpxRequestError string
  | TransportClosed string
  | TransportProtocolError string
  | TransportServerError string
  | TransportQueryError string pyval
  | OtherException string
  | ExecuteTimeoutError string
  | TransportError string
  | InvalidQueryError string
  | QueryError pyval document
  | TypeError string
  | KeyError string
  | IndexError string
  | AttributeError string
  | AssertionError
  | From exn exn

fun str_exn :: "exn \<Rightarrow> string" where
  "str_exn (HttpxTimeoutException m) = m"
| "str_exn (HttpxRequestError m) = m"
| "str_exn (TransportClosed m) = m"
| "str_exn (TransportProtocolError m) = m"
| "str_exn (TransportServerError m) = m"
| "str_exn (TransportQueryError m p) = m"
| "str_exn (OtherException m) = m"
| "str_exn (ExecuteTimeoutError m) = m"
| "str_exn (TransportError m) = m"
| "str_exn (InvalidQueryError m) = m"
| "str_exn (QueryError p d) = []"
| "str_exn (TypeError m) = m"
| "str_exn (KeyError m) = m"
| "str_exn (IndexError m) = m"
| "str_exn (AttributeError m) = m"
| "str_exn AssertionError = []"
| "str_exn (From e c) = str_exn e"

text \<open>
  The schema binding: \<^verbatim>\<open>getattr(schema, type_name)\<close> finds a type or raises
  \<^verbatim>\<open>AttributeError\<close>, \<^verbatim>\<open>getattr(type_, name)\<close> finds a field of it or raises
  \<^verbatim>\<open>AttributeError\<close>, and calling the field with keyword arguments raises
  \<^verbatim>\<open>KeyError\<close> for a name the field does not declare. A schema gives, for a type
  and a field, the argument names the field declares. The binding checks more than
  names (the value of an argument against its declared type, a child against the
  result type of its parent), and raises its own error there; the schema of the model
  has no such types, so a rendering that succeeds in the model is one whose names are
  all bound.
\<close>

type_synonym schema = "string \<Rightarrow> (string \<Rightarrow> string list option) option"

section \<open>Arguments\<close>

datatype Arg = Arg (arg_name: string) (arg_value: pyobj) (arg_default: pyobj)

text \<open>
  Modelled from the spec: the guards \<^verbatim>\<open>InputHint\<close> and \<^verbatim>\<open>InputSeqHint\<close> of
  \<^verbatim>\<open>dagger/client/_guards.py\<close>, which is not among the sources. "A value that is
  itself a structured input type is flattened to a field mapping; a sequence of
  structured input types is flattened element-wise; any other value passes through
  unchanged."
\<close>

fun is_input :: "pyval \<Rightarrow> bool" where
  "is_input (VInput fs) = True"
| "is_input v = False"

fun is_input_seq :: "pyval \<Rightarrow> bool" where
  "is_input_seq (VList xs) = list_all is_input xs"
| "is_input_seq (VTuple xs) = list_all is_input xs"
| "is_input_seq v = False"

text \<open>
  \<^verbatim>\<open>dataclasses.asdict\<close>: a dataclass instance becomes the dict of its fields, and
  the conversion goes through lists, tuples and dicts; anything else is copied.
\<close>

fun asdict :: "pyval \<Rightarrow> pyval" where
  "asdict (VInput fs) = VDict (map (map_prod id asdict) fs)"
| "asdict (VList xs) = VList (map asdict xs)"
| "asdict (VTuple xs) = VTuple (map asdict xs)"
| "asdict (VDict kvs) = VDict (map (map_prod id asdict) kvs)"
| "asdict v = v"

fun elements :: "pyval \<Rightarrow> pyval list" where
  "elements (VList xs) = xs"
| "elements (VTuple xs) = xs"
| "elements v = []"

definition as_input :: "Arg \<Rightarrow> pyval" where
  "as_input self =
     (let v = content (arg_value self) in
      if is_input v then asdict v
      else if is_input_seq v then VList (map asdict (elements v))
      else v)"

section \<open>Selection nodes\<close>

text \<open>
  A \<open>Field\<close> holds its argument dict by reference: \<open>args\<close> is the address of the dict
  in the heap, since \<^verbatim>\<open>resolve_ids\<close> assigns into it and \<^verbatim>\<open>dataclasses.replace\<close>
  copies the reference. The attributes of a \<open>Field\<close> itself are never assigned after
  construction, and neither is a \<open>children\<close> dict, so both are values.
\<close>

datatype Field = Field (type_name: string) (name: string) (args: addr)
  (children: "(string \<times> Field) list")

text \<open>
  The heap: the deques of selections and the argument dicts, by address, and the next
  free address.
\<close>

record heap =
  deques :: "addr \<Rightarrow> Field list"
  dicts :: "addr \<Rightarrow> (string \<times> pyval) list"
  nxt :: addr

definition new_dict :: "heap \<Rightarrow> (string \<times> pyval) list \<Rightarrow> heap \<times> addr" where
  "new_dict h d = (h\<lparr>dicts := (dicts h)(nxt h := d), nxt := Suc (nxt h)\<rparr>, nxt h)"

definition new_deque :: "heap \<Rightarrow> Field list \<Rightarrow> heap \<times> addr" where
  "new_deque h fs = (h\<lparr>deques := (deques h)(nxt h := fs), nxt := Suc (nxt h)\<rparr>, nxt h)"

definition deque_copy :: "heap \<Rightarrow> addr \<Rightarrow> heap \<times> addr" where
  "deque_copy h a = new_deque h (deques h a)"

definition deque_append :: "heap \<Rightarrow> addr \<Rightarrow> Field \<Rightarrow> heap" where
  "deque_append h a f = h\<lparr>deques := (deques h)(a := deques h a @ [f])\<rparr>"

definition deque_pop :: "heap \<Rightarrow> addr \<Rightarrow> exn + heap \<times> Field" where
  "deque_pop h a =
     (if deques h a = [] then Inl (IndexError ''pop from an empty deque'')
      else Inr (h\<lparr>deques := (deques h)(a := butlast (deques h a))\<rparr>, last (deques h a)))"

definition apply_args :: "string list \<Rightarrow> (string \<times> pyval) list \<Rightarrow> exn + (string \<times> pyval) list" where
  "apply_args params kwargs =
     (case find (\<lambda>k. k \<notin> set params) (map fst kwargs) of
        Some k \<Rightarrow> Inl (KeyError k)
      | None \<Rightarrow> Inr kwargs)"

fun to_dsl :: "heap \<Rightarrow> schema \<Rightarrow> Field \<Rightarrow> exn + dsl_field"
  and to_dsl_children :: "heap \<Rightarrow> schema \<Rightarrow> (string \<times> Field) list \<Rightarrow> (string \<times> dsl_field) list
      \<Rightarrow> exn + (string \<times> dsl_field) list"
  where
  "to_dsl h sch (Field tn n a cs) =
     (case sch tn of
        None \<Rightarrow> Inl (AttributeError tn)
      | Some ty \<Rightarrow>
         (case ty n of
            None \<Rightarrow> Inl (AttributeError n)
          | Some params \<Rightarrow>
             (case apply_args params (dicts h a) of
                Inl e \<Rightarrow> Inl e
              | Inr kwargs \<Rightarrow>
                 (if cs = [] then Inr (DSLField tn n kwargs [])
                  else (case to_dsl_children h sch cs [] of
                          Inl e \<Rightarrow> Inl e
                        | Inr sel \<Rightarrow> Inr (DSLField tn n kwargs sel))))))"
| "to_dsl_children h sch [] acc = Inr acc"
| "to_dsl_children h sch (c # cs) acc =
     (case to_dsl h sch (snd c) of
        Inl e \<Rightarrow> Inl e
      | Inr d \<Rightarrow> to_dsl_children h sch cs (AList.update (fst c) d acc))"

definition add_child :: "Field \<Rightarrow> Field \<Rightarrow> Field" where
  "add_child self child = Field (type_name self) (name self) (args self) [(name child, child)]"

section \<open>The query context\<close>

record Context =
  session :: "document \<Rightarrow> exn + pyval"
  schema :: schema
  selections :: addr

text \<open>
  \<^verbatim>\<open>select\<close>: the dict comprehension over the arguments that are not their default
  object, a new \<open>Field\<close> on it, appended to a copy of the deque.
\<close>

definition select_args :: "Arg list \<Rightarrow> (string \<times> pyval) list" where
  "select_args as =
     dict_of (map (\<lambda>arg. (arg_name arg, as_input arg))
               (filter (\<lambda>arg. is_not (arg_value arg) (arg_default arg)) as))"

definition select :: "heap \<Rightarrow> Context \<Rightarrow> string \<Rightarrow> string \<Rightarrow> Arg list \<Rightarrow> heap \<times> Context" where
  "select h self tn field_name as =
     (let (h1, args') = new_dict h (select_args as);
          field' = Field tn field_name args' [];
          (h2, selections') = deque_copy h1 (selections self);
          h3 = deque_append h2 selections' field'
      in (h3, self\<lparr>selections := selections'\<rparr>))"

text \<open>
  \<^verbatim>\<open>select_multiple\<close>: the keyword arguments \<^verbatim>\<open>**fields\<close> (here \<open>kwargs\<close>) map each alias to a field
  name. Every leaf \<^verbatim>\<open>Field(type_name, v, {})\<close> gets an empty argument dict of its own.
  \<^verbatim>\<open>selections.pop()\<close> raises \<^verbatim>\<open>IndexError\<close> on an empty deque.
\<close>

fun new_leaves :: "heap \<Rightarrow> string \<Rightarrow> (string \<times> string) list \<Rightarrow> (string \<times> Field) list
    \<Rightarrow> heap \<times> (string \<times> Field) list" where
  "new_leaves h tn [] acc = (h, acc)"
| "new_leaves h tn (kv # kvs) acc =
     (let (h1, a) = new_dict h []
      in new_leaves h1 tn kvs (AList.update (fst kv) (Field tn (snd kv) a []) acc))"

definition select_multiple :: "heap \<Rightarrow> Context \<Rightarrow> string \<Rightarrow> (string \<times> string) list
    \<Rightarrow> exn + heap \<times> Context" where
  "select_multiple h self tn kwargs =
     (let (h1, selections') = deque_copy h (selections self) in
      case deque_pop h1 selections' of
        Inl e \<Rightarrow> Inl e
      | Inr (h2, parent) \<Rightarrow>
         (let (h3, cs) = new_leaves h2 tn kwargs [];
              field' = Field (type_name parent) (name parent) (args parent) cs;
              h4 = deque_append h3 selections' field'
          in Inr (h4, self\<lparr>selections := selections'\<rparr>)))"

text \<open>
  \<^verbatim>\<open>build\<close>: \<^verbatim>\<open>functools.reduce(_collapse, reversed(self.selections))\<close> is a left
  fold over the reversed deque, started at its first element.
\<close>

definition collapse :: "Field \<Rightarrow> Field \<Rightarrow> Field" where
  "collapse child field' = add_child field' child"

definition build :: "heap \<Rightarrow> Context \<Rightarrow> exn + dsl_field" where
  "build h self =
     (case rev (deques h (selections self)) of
        [] \<Rightarrow> Inl (InvalidQueryError ''No field has been selected'')
      | x # xs \<Rightarrow> to_dsl h (schema self) (foldl collapse x xs))"

definition query :: "heap \<Rightarrow> Context \<Rightarrow> exn + document" where
  "query h self = (case build h self of Inl e \<Rightarrow> Inl e | Inr root \<Rightarrow> Inr (DSLQuery root))"

section \<open>Decoding the response\<close>

text \<open>
  The return types: \<^verbatim>\<open>str\<close>, \<^verbatim>\<open>int\<close>, \<^verbatim>\<open>bool\<close>, a generated scalar (a \<^verbatim>\<open>str\<close>
  subclass), \<^verbatim>\<open>Optional[t]\<close>, \<^verbatim>\<open>list[t]\<close>, and a generated subclass of \<^verbatim>\<open>Type\<close>
  with its \<^verbatim>\<open>__slots__\<close> and its type hints. Of these only \<^verbatim>\<open>Optional[t]\<close> accepts
  \<^verbatim>\<open>None\<close>, which is all \<^verbatim>\<open>get_value\<close> asks of \<^verbatim>\<open>TypeHint.is_bearable\<close>.
\<close>

datatype pytype =
    TStr
  | TInt
  | TBool
  | TScalar string
  | TOptional pytype
  | TList pytype
  | TType string "string list" "(string \<times> pytype) list"

fun is_bearable_None :: "pytype \<Rightarrow> bool" where
  "is_bearable_None (TOptional t) = True"
| "is_bearable_None t = False"

text \<open>
  The converter of \<^verbatim>\<open>__post_init__\<close>: the structuring hook \<^verbatim>\<open>_struct\<close> for the
  subclasses of \<^verbatim>\<open>Type\<close> that have \<^verbatim>\<open>__slots__\<close>, on top of the converter of
  \<^verbatim>\<open>cattrs\<close>. Of the latter the model has what it does on a value that already has
  the shape of the type (\<^verbatim>\<open>None\<close> for an optional type, a string for \<^verbatim>\<open>str\<close> and for
  a scalar class, and so on); every other case is the parameter \<open>other\<close>. The hook
  makes an object bound to the Context, and assigns each slot that has a type hint and
  is a key of the payload.
\<close>

fun assign_slots :: "(string \<times> (exn + pyval)) list \<Rightarrow> string list \<Rightarrow> (string \<times> pyval) list
    \<Rightarrow> exn + (string \<times> pyval) list" where
  "assign_slots rs [] attrs = Inr attrs"
| "assign_slots rs (slot # slots) attrs =
     (case map_of rs slot of
        None \<Rightarrow> assign_slots rs slots attrs
      | Some (Inl e) \<Rightarrow> Inl e
      | Some (Inr x) \<Rightarrow> assign_slots rs slots (AList.update slot x attrs))"

fun conv_structure :: "(pyval \<Rightarrow> pytype \<Rightarrow> exn + pyval) \<Rightarrow> addr \<Rightarrow> pyval \<Rightarrow> pytype \<Rightarrow> exn + pyval"
  and struct_hints :: "(pyval \<Rightarrow> pytype \<Rightarrow> exn + pyval) \<Rightarrow> addr \<Rightarrow> (string \<times> pyval) list
      \<Rightarrow> (string \<times> pytype) list \<Rightarrow> (string \<times> (exn + pyval)) list"
  and structure_list :: "(pyval \<Rightarrow> pytype \<Rightarrow> exn + pyval) \<Rightarrow> addr \<Rightarrow> pyval list \<Rightarrow> pytype
      \<Rightarrow> exn + pyval list"
  where
  "conv_structure other ctx v TStr = (case v of VStr s \<Rightarrow> Inr (VStr s) | _ \<Rightarrow> other v TStr)"
| "conv_structure other ctx v TInt = (case v of VInt i \<Rightarrow> Inr (VInt i) | _ \<Rightarrow> other v TInt)"
| "conv_structure other ctx v TBool = (case v of VBool b \<Rightarrow> Inr (VBool b) | _ \<Rightarrow> other v TBool)"
| "conv_structure other ctx v (TScalar c) =
     (case v of VStr s \<Rightarrow> Inr (VScalar c s) | _ \<Rightarrow> other v (TScalar c))"
| "conv_structure other ctx v (TOptional t) =
     (if v = VNone then Inr VNone else conv_structure other ctx v t)"
| "conv_structure other ctx v (TList t) =
     (case v of
        VList xs \<Rightarrow> (case structure_list other ctx xs t of Inl e \<Rightarrow> Inl e | Inr ys \<Rightarrow> Inr (VList ys))
      | _ \<Rightarrow> other v (TList t))"
| "conv_structure other ctx v (TType c slots hints) =
     (case v of
        VDict d \<Rightarrow>
          (case assign_slots (struct_hints other ctx d hints) slots [] of
             Inl e \<Rightarrow> Inl e
           | Inr attrs \<Rightarrow> Inr (VObj c ctx attrs))
      | _ \<Rightarrow> other v (TType c slots hints))"
| "struct_hints other ctx d [] = []"
| "struct_hints other ctx d ((slot, t) # hints) =
     (case map_of d slot of
        None \<Rightarrow> struct_hints other ctx d hints
      | Some x \<Rightarrow> (slot, conv_structure other ctx x t) # struct_hints other ctx d hints)"
| "structure_list other ctx [] t = Inr []"
| "structure_list other ctx (x # xs) t =
     (case conv_structure other ctx x t of
        Inl e \<Rightarrow> Inl e
      | Inr y \<Rightarrow> (case structure_list other ctx xs t of Inl e \<Rightarrow> Inl e | Inr ys \<Rightarrow> Inr (y # ys)))"

text \<open>
  \<^verbatim>\<open>get_value\<close>: the walk along the names of the selections stops at the first
  value that is not a dict, and \<^verbatim>\<open>value[f.name]\<close> raises \<^verbatim>\<open>KeyError\<close> when the dict
  has no such key.
\<close>

fun walk :: "Field list \<Rightarrow> pyval \<Rightarrow> exn + pyval" where
  "walk [] v = Inr v"
| "walk (f # fs) v =
     (case v of
        VDict d \<Rightarrow> (case map_of d (name f) of None \<Rightarrow> Inl (KeyError (name f)) | Some x \<Rightarrow> walk fs x)
      | _ \<Rightarrow> Inr v)"

definition get_value :: "(pyval \<Rightarrow> pytype \<Rightarrow> exn + pyval) \<Rightarrow> heap \<Rightarrow> Context \<Rightarrow> pyval \<Rightarrow> pytype
    \<Rightarrow> exn + pyval" where
  "get_value other h self v return_type =
     (case walk (deques h (selections self)) v of
        Inl e \<Rightarrow> Inl e
      | Inr x \<Rightarrow>
          if x = VNone \<and> \<not> is_bearable_None return_type
          then Inl (InvalidQueryError
                 ''Required field got a null response. Check if parent fields are valid.'')
          else conv_structure other (selections self) x return_type)"

section \<open>Resolving object handles\<close>

text \<open>
  Modelled from the spec: the guards \<^verbatim>\<open>is_id_type\<close> and \<^verbatim>\<open>is_id_type_sequence\<close> of
  \<^verbatim>\<open>dagger/client/_guards.py\<close>, which is not among the sources. The resolver is to
  "detect values that are themselves handles to other (possibly yet-unexecuted)
  objects - or sequences containing such handles".
\<close>

fun is_id_type :: "pyval \<Rightarrow> bool" where
  "is_id_type (VObj c ctx attrs) = True"
| "is_id_type v = False"

fun is_id_type_sequence :: "pyval \<Rightarrow> bool" where
  "is_id_type_sequence (VList xs) = list_ex is_id_type xs"
| "is_id_type_sequence (VTuple xs) = list_ex is_id_type xs"
| "is_id_type_sequence v = False"

text \<open>
  \<^verbatim>\<open>resolve_ids\<close> first goes through every argument of every selection. The loop
  has no suspension point, so it ends before any task runs: it replaces each sequence
  of handles by a list (\<^verbatim>\<open>sel.args[k] = list(v)\<close>) and starts one task per handle.
  A task is \<^verbatim>\<open>_resolve_id(pos, k, v)\<close> or \<^verbatim>\<open>_resolve_seq_id(pos, idx, k, v)\<close>.
\<close>

datatype task = ResolveId nat string pyval | ResolveSeqId nat nat string pyval

definition seq_tasks :: "nat \<Rightarrow> string \<Rightarrow> pyval list \<Rightarrow> task list" where
  "seq_tasks i k xs =
     map (\<lambda>p. ResolveSeqId i (fst p) k (snd p)) (filter (\<lambda>p. is_id_type (snd p)) (enumerate 0 xs))"

definition setitem :: "heap \<Rightarrow> addr \<Rightarrow> string \<Rightarrow> pyval \<Rightarrow> heap" where
  "setitem h a k v = h\<lparr>dicts := (dicts h)(a := AList.update k v (dicts h a))\<rparr>"

fun scan_args :: "heap \<Rightarrow> nat \<Rightarrow> addr \<Rightarrow> (string \<times> pyval) list \<Rightarrow> heap \<times> task list" where
  "scan_args h i a [] = (h, [])"
| "scan_args h i a ((k, v) # kvs) =
     (if is_id_type_sequence v then
        (let (h', ts) = scan_args (setitem h a k (VList (elements v))) i a kvs
         in (h', seq_tasks i k (elements v) @ ts))
      else if is_id_type v then
        (let (h', ts) = scan_args h i a kvs in (h', ResolveId i k v # ts))
      else scan_args h i a kvs)"

fun scan :: "heap \<Rightarrow> nat \<Rightarrow> Field list \<Rightarrow> heap \<times> task list" where
  "scan h i [] = (h, [])"
| "scan h i (sel # sels) =
     (let (h1, ts) = scan_args h i (args sel) (dicts h (args sel));
          (h2, ts') = scan h1 (Suc i) sels
      in (h2, ts @ ts'))"

text \<open>
  A task awaits \<^verbatim>\<open>v.id()\<close>, the handle's own request for its identifier, and assigns
  the result. \<^verbatim>\<open>v.id()\<close> is generated code; it is the parameter \<open>fetch_id\<close>, a
  function of the handle that returns the identifier or the exception of the
  sub-execution. The only suspension point of a task is that \<^verbatim>\<open>await\<close>, so its
  assignment is one step, taken when the task completes. The tasks of the task group
  run concurrently: the order in which they complete is the scheduler's, the parameter
  \<open>sched\<close>, which reorders the tasks that were started. The first exception ends the
  group.
\<close>

fun run_task :: "(pyval \<Rightarrow> exn + pyval) \<Rightarrow> Field list \<Rightarrow> heap \<Rightarrow> task \<Rightarrow> exn + heap" where
  "run_task fetch_id sels h (ResolveId pos k v) =
     (if pos < length sels then
        (case fetch_id v of
           Inl e \<Rightarrow> Inl e
         | Inr r \<Rightarrow> Inr (setitem h (args (sels ! pos)) k r))
      else Inl (IndexError ''deque index out of range''))"
| "run_task fetch_id sels h (ResolveSeqId pos idx k v) =
     (if pos < length sels then
        (case fetch_id v of
           Inl e \<Rightarrow> Inl e
         | Inr r \<Rightarrow>
            (case map_of (dicts h (args (sels ! pos))) k of
               None \<Rightarrow> Inl (KeyError k)
             | Some (VList xs) \<Rightarrow>
                 if idx < length xs
                 then Inr (setitem h (args (sels ! pos)) k (VList (xs[idx := r])))
                 else Inl (IndexError ''list assignment index out of range'')
             | Some x \<Rightarrow> Inl (TypeError ''object does not support item assignment'')))
      else Inl (IndexError ''deque index out of range''))"

fun run_tasks :: "(pyval \<Rightarrow> exn + pyval) \<Rightarrow> Field list \<Rightarrow> heap \<Rightarrow> task list \<Rightarrow> exn + heap" where
  "run_tasks fetch_id sels h [] = Inr h"
| "run_tasks fetch_id sels h (t # ts) =
     (case run_task fetch_id sels h t of
        Inl e \<Rightarrow> Inl e
      | Inr h' \<Rightarrow> run_tasks fetch_id sels h' ts)"

definition resolve_ids :: "(pyval \<Rightarrow> exn + pyval) \<Rightarrow> (task list \<Rightarrow> task list) \<Rightarrow> heap \<Rightarrow> Context
    \<Rightarrow> exn + heap" where
  "resolve_ids fetch_id sched h self =
     (let sels = deques h (selections self);
          (h1, ts) = scan h 0 sels
      in run_tasks fetch_id sels h1 (sched ts))"

section \<open>Execution\<close>

text \<open>
  The \<^verbatim>\<open>except\<close> clauses of \<^verbatim>\<open>execute\<close>, in their order. The mapper
  \<^verbatim>\<open>_query_error_from_transport\<close> of \<^verbatim>\<open>dagger/_exceptions.py\<close> is not among the
  sources; it is the parameter \<open>query_error_from_transport\<close>, which returns a query
  error or nothing. An exception of any other class is not caught.
\<close>

fun execute_except :: "(exn \<Rightarrow> document \<Rightarrow> exn option) \<Rightarrow> document \<Rightarrow> exn \<Rightarrow> exn" where
  "execute_except query_error_from_transport q (HttpxTimeoutException m) =
     From (ExecuteTimeoutError
       ''Request timed out. Try setting a higher value in 'execute_timeout' config for this `dagger.Connection()`.'')
       (HttpxTimeoutException m)"
| "execute_except query_error_from_transport q (HttpxRequestError m) =
     From (TransportError (''Failed to make request: '' @ str_exn (HttpxRequestError m)))
       (HttpxRequestError m)"
| "execute_except query_error_from_transport q (TransportClosed m) =
     From (TransportError
       ''Connection to engine has been closed. Make sure you're calling the API within a `dagger.Connection()` context.'')
       (TransportClosed m)"
| "execute_except query_error_from_transport q (TransportProtocolError m) =
     From (TransportError (''Unexpected response from engine: '' @ str_exn (TransportProtocolError m)))
       (TransportProtocolError m)"
| "execute_except query_error_from_transport q (TransportServerError m) =
     From (TransportError (''Unexpected response from engine: '' @ str_exn (TransportServerError m)))
       (TransportServerError m)"
| "execute_except query_error_from_transport q (TransportQueryError m p) =
     (case query_error_from_transport (TransportQueryError m p) q of
        Some error \<Rightarrow> From error (TransportQueryError m p)
      | None \<Rightarrow> TransportQueryError m p)"
| "execute_except query_error_from_transport q e = e"

text \<open>
  \<^verbatim>\<open>execute\<close>: \<^verbatim>\<open>resolve_ids\<close> and \<^verbatim>\<open>query\<close> stand before the \<^verbatim>\<open>try\<close>, so their
  exceptions pass unchanged. Without a return type (\<^verbatim>\<open>None\<close>) the result is \<^verbatim>\<open>None\<close>.
\<close>

definition execute :: "(pyval \<Rightarrow> exn + pyval) \<Rightarrow> (task list \<Rightarrow> task list)
    \<Rightarrow> (exn \<Rightarrow> document \<Rightarrow> exn option) \<Rightarrow> (pyval \<Rightarrow> pytype \<Rightarrow> exn + pyval)
    \<Rightarrow> heap \<Rightarrow> Context \<Rightarrow> pytype option \<Rightarrow> exn + heap \<times> pyval" where
  "execute fetch_id sched query_error_from_transport other h self return_type =
     (case resolve_ids fetch_id sched h self of
        Inl e \<Rightarrow> Inl e
      | Inr h1 \<Rightarrow>
         (case query h1 self of
            Inl e \<Rightarrow> Inl e
          | Inr q \<Rightarrow>
             (case session self q of
                Inl e \<Rightarrow> Inl (execute_except query_error_from_transport q e)
              | Inr result \<Rightarrow>
                 (case return_type of
                    None \<Rightarrow> Inr (h1, VNone)
                  | Some t \<Rightarrow>
                     (case get_value other h1 self result t of
                        Inl e \<Rightarrow> Inl e
                      | Inr x \<Rightarrow> Inr (h1, x))))))"

section \<open>The root object\<close>






definition from_context :: "heap \<Rightarrow> Context \<Rightarrow> heap \<times> Context" where
  "from_context h ctx = (let (h1, d) = new_deque h [] in (h1, ctx\<lparr>selections := d\<rparr>))"




section \<open>Auxiliary notions for the properties\<close>

text \<open>
  Modelled from the spec: the collapse of a chain, "so each node becomes the child of
  its predecessor, producing a single root node whose children nest all the way to the
  final leaf(ves)". It is written out on the nodes themselves, without \<^verbatim>\<open>add_child\<close> and
  without the fold of \<^verbatim>\<open>build\<close>: the root is the first node; the children of every node
  but the last are the one entry that holds, under the name of the next node, the
  collapse of the rest; the last node keeps its children.
\<close>

fun nest :: "Field \<Rightarrow> Field list \<Rightarrow> Field" where
  "nest f [] = f"
| "nest f (g # gs) = Field (type_name f) (name f) (args f) [(name g, nest g gs)]"

text \<open>
  A sequence of \<^verbatim>\<open>select\<close> calls, each on the Context the one before returned.
\<close>

fun selects :: "heap \<Rightarrow> Context \<Rightarrow> (string \<times> string \<times> Arg list) list \<Rightarrow> heap \<times> Context" where
  "selects h ctx [] = (h, ctx)"
| "selects h ctx ((tn, fn, as) # cs) =
     (let (h', ctx') = select h ctx tn fn as in selects h' ctx' cs)"

text \<open>
  An empty heap, a schema with three fields of the service, a session that answers
  every document with the same payload, and a root Context on them, for the concrete
  instances below.
\<close>

definition heap0 :: heap where
  "heap0 = \<lparr>deques = (\<lambda>a. []), dicts = (\<lambda>a. []), nxt = 0\<rparr>"

definition schema0 :: schema where
  "schema0 = (\<lambda>tn.
     if tn = ''Query'' then Some (\<lambda>n. if n = ''container'' then Some [] else None)
     else if tn = ''Container'' then
       Some (\<lambda>n. if n = ''from'' then Some [''image'']
                  else if n = ''id'' \<or> n = ''stdout'' \<or> n = ''stderr'' then Some []
                  else None)
     else None)"

definition payload0 :: pyval where
  "payload0 = VDict [(''container'', VDict [(''from'', VDict [(''id'', VStr ''abc123'')])])]"

definition root0 :: "heap \<times> Context" where
  "root0 = from_context heap0 \<lparr>session = (\<lambda>q. Inr payload0), schema = schema0, selections = 0\<rparr>"

text \<open>
  The chain of the one selection \<^verbatim>\<open>Query.container\<close> on the root Context, and the two
  calls that extend it to \<^verbatim>\<open>container { from(image: "alpine") { id } }\<close>.
\<close>

definition chain1 :: "heap \<times> Context" where
  "chain1 = select (fst root0) (snd root0) ''Query'' ''container'' []"

definition calls23 :: "(string \<times> string \<times> Arg list) list" where
  "calls23 = [(''Container'', ''from'', [Arg ''image'' (Obj 7 (VStr ''alpine'')) MISSING]),
              (''Container'', ''id'', [])]"

text \<open>
  For the resolver: the slot a task assigns to, the value the first loop leaves for an
  argument (a sequence of handles becomes a list), and the tasks the first loop starts
  for an argument and for a node.
\<close>

fun task_pos :: "task \<Rightarrow> nat" where
  "task_pos (ResolveId pos k v) = pos"
| "task_pos (ResolveSeqId pos idx k v) = pos"

fun task_key :: "task \<Rightarrow> string" where
  "task_key (ResolveId pos k v) = k"
| "task_key (ResolveSeqId pos idx k v) = k"

definition listed :: "pyval \<Rightarrow> pyval" where
  "listed v = (if is_id_type_sequence v then VList (elements v) else v)"

definition entry_tasks :: "nat \<Rightarrow> string \<times> pyval \<Rightarrow> task list" where
  "entry_tasks i kv =
     (if is_id_type_sequence (snd kv) then seq_tasks i (fst kv) (elements (snd kv))
      else if is_id_type (snd kv) then [ResolveId i (fst kv) (snd kv)]
      else [])"

definition field_tasks :: "heap \<Rightarrow> nat \<times> Field \<Rightarrow> task list" where
  "field_tasks h p = concat (map (entry_tasks (fst p)) (dicts h (args (snd p))))"

fun task_idx :: "task \<Rightarrow> nat" where
  "task_idx (ResolveId pos k v) = 0"
| "task_idx (ResolveSeqId pos idx k v) = idx"

fun task_val :: "task \<Rightarrow> pyval" where
  "task_val (ResolveId pos k v) = v"
| "task_val (ResolveSeqId pos idx k v) = v"

text \<open>
  A task assigns to the slot \<open>(a, k)\<close> when the argument dict of its node is at \<open>a\<close> and
  its key is \<open>k\<close>.
\<close>

definition assigns_to :: "Field list \<Rightarrow> addr \<Rightarrow> string \<Rightarrow> task \<Rightarrow> bool" where
  "assigns_to sels a k t = (args (sels ! task_pos t) = a \<and> task_key t = k)"

text \<open>
  The chains that \<^verbatim>\<open>select\<close> and \<^verbatim>\<open>select_multiple\<close> build from a root Context: no two
  nodes share an argument dict, every argument dict is allocated, and no argument dict
  has a key twice.
\<close>

definition chain_ok :: "heap \<Rightarrow> Context \<Rightarrow> bool" where
  "chain_ok h ctx =
     (distinct (map args (deques h (selections ctx)))
      \<and> list_all (\<lambda>f. args f < nxt h \<and> distinct (map fst (dicts h (args f))))
           (deques h (selections ctx)))"

text \<open>
  Further concrete instances: a fetch of identifiers that answers every handle with
  an identifier made of its class name; a chain whose second node has a plain argument,
  a handle and a list with two handles; a mapper of query errors that knows an error
  payload that is a list with an element; a Context whose session raises a given
  exception; and two generated classes, one that can be made from an identifier and
  one that cannot.
\<close>

definition fetch0 :: "pyval \<Rightarrow> exn + pyval" where
  "fetch0 v = (case v of VObj c ctx attrs \<Rightarrow> Inr (VScalar (c @ ''ID'') c)
               | _ \<Rightarrow> Inl (AttributeError ''id''))"

definition chain2 :: "heap \<times> Context" where
  "chain2 = select (fst chain1) (snd chain1) ''Container'' ''withDirectory''
     [Arg ''path'' (Obj 7 (VStr ''/src'')) MISSING,
      Arg ''directory'' (Obj 8 (VObj ''Directory'' 0 [])) MISSING,
      Arg ''mounts'' (Obj 9 (VList [VObj ''File'' 0 [], VStr ''plain'', VObj ''Secret'' 0 []])) MISSING]"

definition qerr0 :: "exn \<Rightarrow> document \<Rightarrow> exn option" where
  "qerr0 e q = (case e of
      TransportQueryError m (VList (x # xs)) \<Rightarrow> Some (QueryError (VList (x # xs)) q)
    | _ \<Rightarrow> None)"

definition failing :: "exn \<Rightarrow> Context" where
  "failing e = (snd chain1)\<lparr>session := (\<lambda>q. Inl e)\<rparr>"



section \<open>Properties\<close>

subsection \<open>Rendering and collapsing\<close>

lemma apply_args_Inl: "apply_args ps kw = Inl e \<Longrightarrow> \<exists>k. e = KeyError k"
  by (auto simp: apply_args_def split: option.splits)

lemma apply_args_Inr:
  "(apply_args ps kw = Inr r) = (list_all (\<lambda>k. k \<in> set ps) (map fst kw) \<and> r = kw)"
  by (auto simp: apply_args_def list_all_iff find_None_iff find_Some_iff split: option.splits)

lemma to_dsl_not_invalid:
  "to_dsl h sch f \<noteq> Inl (InvalidQueryError m)"
  "to_dsl_children h sch cs acc \<noteq> Inl (InvalidQueryError m)"
  by (induction h sch f and h sch cs acc rule: to_dsl_to_dsl_children.induct)
     (auto split: option.splits sum.splits dest: apply_args_Inl)

lemma foldl_collapse_nest:
  "foldl collapse (nest g gs) ys = nest (last (g # ys)) (rev (butlast (g # ys)) @ gs)"
proof (induction ys arbitrary: g gs)
  case Nil
  show ?case by simp
next
  case (Cons y ys)
  have "foldl collapse (nest g gs) (y # ys) = foldl collapse (nest y (g # gs)) ys"
    by (cases gs) (simp_all add: collapse_def add_child_def)
  also have "\<dots> = nest (last (y # ys)) (rev (butlast (y # ys)) @ g # gs)"
    by (rule Cons.IH)
  finally show ?case by simp
qed

lemma rev_cons_last: "rev (f # fs) = last (f # fs) # rev (butlast (f # fs))"
  by (metis append_butlast_last_id list.distinct(1) rev.simps(2) rev_append rev_rev_ident
      rev_singleton_conv append_Nil)

lemma reduce_collapse: "foldl collapse (last (f # fs)) (rev (butlast (f # fs))) = nest f fs"
proof -
  have "foldl collapse (nest (last (f # fs)) []) (rev (butlast (f # fs)))
      = nest (last (last (f # fs) # rev (butlast (f # fs))))
             (rev (butlast (last (f # fs) # rev (butlast (f # fs)))) @ [])"
    by (rule foldl_collapse_nest)
  moreover have "last (f # fs) # rev (butlast (f # fs)) = rev (f # fs)"
    by (simp only: rev_cons_last)
  ultimately show ?thesis
    by (simp del: last.simps butlast.simps)
qed

lemma build_cons:
  assumes "deques h (selections self) = f # fs"
  shows "build h self = to_dsl h (schema self) (nest f fs)"
proof -
  have r: "rev (deques h (selections self)) = last (f # fs) # rev (butlast (f # fs))"
    using assms rev_cons_last by metis
  have "build h self
      = to_dsl h (schema self) (foldl collapse (last (f # fs)) (rev (butlast (f # fs))))"
    unfolding build_def r by simp
  then show ?thesis
    by (simp only: reduce_collapse)
qed

lemma build_nil:
  "deques h (selections self) = []
   \<Longrightarrow> build h self = Inl (InvalidQueryError ''No field has been selected'')"
  by (simp add: build_def)

lemma root0_eval:
  "root0 = (\<lparr>deques = (\<lambda>a. [])(0 := []), dicts = (\<lambda>a. []), nxt = Suc 0\<rparr>,
            \<lparr>session = (\<lambda>q. Inr payload0), schema = schema0, selections = 0\<rparr>)"
  by (simp add: root0_def from_context_def new_deque_def heap0_def)

lemma reduce_reversed:
  "foldl collapse (hd (rev (f # fs))) (tl (rev (f # fs))) = nest f fs"
proof -
  have "rev (f # fs) = last (f # fs) # rev (butlast (f # fs))" by (rule rev_cons_last)
  then have "hd (rev (f # fs)) = last (f # fs)" "tl (rev (f # fs)) = rev (butlast (f # fs))"
    by (metis list.sel(1), metis list.sel(3))
  then show ?thesis by (simp only: reduce_collapse)
qed

subsection \<open>Compiling a chain\<close>

text \<open>
  Claim C4, as the code has it. \<^verbatim>\<open>build\<close> raises \<^verbatim>\<open>InvalidQueryError\<close> (its message is
  "No field has been selected") exactly when the node sequence is empty. On a
  non-empty sequence the fold over the reversed sequence yields one root node, the
  first node of the chain with every later node the only child of its predecessor,
  and \<^verbatim>\<open>build\<close> returns what the rendering of that root by the schema binding returns,
  its result or its error: \<^verbatim>\<open>build\<close> does not always succeed on a non-empty
  sequence.
\<close>

theorem build_no_field_selected:
  "((\<exists>m. build h self = Inl (InvalidQueryError m)) \<longleftrightarrow> deques h (selections self) = [])
   \<and> (build h self = Inl (InvalidQueryError ''No field has been selected'')
        \<longleftrightarrow> deques h (selections self) = [])
   \<and> (\<forall>f fs. deques h (selections self) = f # fs \<longrightarrow>
         foldl collapse (hd (rev (f # fs))) (tl (rev (f # fs))) = nest f fs
         \<and> build h self = to_dsl h (schema self) (nest f fs))"
proof (cases "deques h (selections self)")
  case Nil
  then show ?thesis by (simp add: build_nil)
next
  case (Cons f fs)
  have b: "build h self = to_dsl h (schema self) (nest f fs)"
    using Cons by (rule build_cons)
  have n: "\<And>m. build h self \<noteq> Inl (InvalidQueryError m)"
    unfolding b by (rule to_dsl_not_invalid)
  have r: "\<And>g gs. foldl collapse (hd (rev (g # gs))) (tl (rev (g # gs))) = nest g gs"
    by (rule reduce_reversed)
  have 1: "(\<exists>m. build h self = Inl (InvalidQueryError m)) \<longleftrightarrow> deques h (selections self) = []"
    using Cons n by simp
  have 2: "build h self = Inl (InvalidQueryError ''No field has been selected'')
        \<longleftrightarrow> deques h (selections self) = []"
    using Cons n by simp
  have 3: "\<forall>g gs. deques h (selections self) = g # gs \<longrightarrow>
         foldl collapse (hd (rev (g # gs))) (tl (rev (g # gs))) = nest g gs
         \<and> build h self = to_dsl h (schema self) (nest g gs)"
    using Cons b r by (intro allI impI conjI) (blast, simp)
  from 1 2 3 show ?thesis by blast
qed

text \<open>
  An instance: the chain of two selections \<^verbatim>\<open>Query.container\<close> and \<^verbatim>\<open>Container.id\<close> on
  the root Context; the root node is \<^verbatim>\<open>container\<close> with the one child \<^verbatim>\<open>id\<close>.
\<close>

theorem build_no_field_selected_witness:
  "case selects (fst root0) (snd root0) [(''Query'', ''container'', []), (''Container'', ''id'', [])] of
     (h, ctx) \<Rightarrow>
        deques h (selections ctx) = [Field ''Query'' ''container'' 1 [], Field ''Container'' ''id'' 3 []]
      \<and> foldl collapse (Field ''Container'' ''id'' 3 []) [Field ''Query'' ''container'' 1 []]
          = Field ''Query'' ''container'' 1 [(''id'', Field ''Container'' ''id'' 3 [])]
      \<and> build h ctx
          = to_dsl h (schema ctx) (Field ''Query'' ''container'' 1 [(''id'', Field ''Container'' ''id'' 3 [])])
      \<and> build h ctx \<noteq> Inl (InvalidQueryError ''No field has been selected'')"
proof -
  define hc where
    "hc = selects (fst root0) (snd root0) [(''Query'', ''container'', []), (''Container'', ''id'', [])]"
  have d: "deques (fst hc) (selections (snd hc))
         = Field ''Query'' ''container'' 1 [] # [Field ''Container'' ''id'' 3 []]"
    by (simp add: hc_def root0_eval select_def new_dict_def deque_copy_def new_deque_def
        deque_append_def select_args_def dict_of_def eval_nat_numeral)
  have n: "nest (Field ''Query'' ''container'' 1 []) [Field ''Container'' ''id'' 3 []]
         = Field ''Query'' ''container'' 1 [(''id'', Field ''Container'' ''id'' 3 [])]"
    by simp
  have r: "hd (rev (Field ''Query'' ''container'' 1 [] # [Field ''Container'' ''id'' 3 []]))
             = Field ''Container'' ''id'' 3 []"
          "tl (rev (Field ''Query'' ''container'' 1 [] # [Field ''Container'' ''id'' 3 []]))
             = [Field ''Query'' ''container'' 1 []]"
    by simp_all
  from build_no_field_selected[of "fst hc" "snd hc"] d
  have t: "foldl collapse
             (hd (rev (Field ''Query'' ''container'' 1 [] # [Field ''Container'' ''id'' 3 []])))
             (tl (rev (Field ''Query'' ''container'' 1 [] # [Field ''Container'' ''id'' 3 []])))
           = nest (Field ''Query'' ''container'' 1 []) [Field ''Container'' ''id'' 3 []]
         \<and> build (fst hc) (snd hc)
           = to_dsl (fst hc) (schema (snd hc))
               (nest (Field ''Query'' ''container'' 1 []) [Field ''Container'' ''id'' 3 []])"
    and e: "build (fst hc) (snd hc) = Inl (InvalidQueryError ''No field has been selected'')
             \<longleftrightarrow> deques (fst hc) (selections (snd hc)) = []"
    by blast+
  from e d have ne: "build (fst hc) (snd hc) \<noteq> Inl (InvalidQueryError ''No field has been selected'')"
    by simp
  from t have t': "foldl collapse (Field ''Container'' ''id'' 3 []) [Field ''Query'' ''container'' 1 []]
           = Field ''Query'' ''container'' 1 [(''id'', Field ''Container'' ''id'' 3 [])]
         \<and> build (fst hc) (snd hc)
           = to_dsl (fst hc) (schema (snd hc))
               (Field ''Query'' ''container'' 1 [(''id'', Field ''Container'' ''id'' 3 [])])"
    unfolding r n .
  from d t' ne show ?thesis
    unfolding hc_def case_prod_beta by simp
qed

text \<open>
  Claim C4 as stated fails on the code: a chain that is not empty, whose one field the
  schema does not have, makes \<^verbatim>\<open>build\<close> raise the \<^verbatim>\<open>AttributeError\<close> of the lookup.
  (And on the empty chain the message of the error is "No field has been selected".)
\<close>

theorem build_unbound_field_counterexample:
  "(case select (fst root0) (snd root0) ''Query'' ''nope'' [] of
     (h, ctx) \<Rightarrow> deques h (selections ctx) = [Field ''Query'' ''nope'' 1 []]
        \<and> build h ctx = Inl (AttributeError ''nope''))
   \<and> build (fst root0) (snd root0) = Inl (InvalidQueryError ''No field has been selected'')"
  by (simp add: root0_eval select_def new_dict_def deque_copy_def new_deque_def deque_append_def
        select_args_def dict_of_def build_def schema0_def)

subsection \<open>Extending a chain\<close>

lemma select_eq:
  "select h self tn fn as =
     (\<lparr>deques = (deques h)(Suc (nxt h) := deques h (selections self) @ [Field tn fn (nxt h) []]),
       dicts = (dicts h)(nxt h := select_args as),
       nxt = Suc (Suc (nxt h))\<rparr>,
      self\<lparr>selections := Suc (nxt h)\<rparr>)"
  by (simp add: select_def new_dict_def deque_copy_def new_deque_def deque_append_def)

lemma selects_frame:
  "selects h ctx calls = (h', ctx') \<Longrightarrow>
     nxt h \<le> nxt h'
     \<and> (\<exists>new. deques h' (selections ctx') = deques h (selections ctx) @ new
           \<and> map type_name new = map fst calls
           \<and> map name new = map (fst \<circ> snd) calls)
     \<and> (\<forall>a<nxt h. deques h' a = deques h a \<and> dicts h' a = dicts h a)"
proof (induction calls arbitrary: h ctx)
  case Nil
  then show ?case by simp
next
  case (Cons c calls)
  obtain tn fn as where c: "c = (tn, fn, as)" by (cases c) auto
  obtain h1 c1 where s: "select h ctx tn fn as = (h1, c1)" by (cases "select h ctx tn fn as") auto
  with Cons.prems c have r: "selects h1 c1 calls = (h', ctx')" by simp
  from s have h1: "nxt h1 = Suc (Suc (nxt h))" 
     "deques h1 (selections c1) = deques h (selections ctx) @ [Field tn fn (nxt h) []]"
     "\<And>a. a < nxt h \<Longrightarrow> deques h1 a = deques h a \<and> dicts h1 a = dicts h a"
    by (auto simp: select_eq)
  from Cons.IH[OF r] obtain new where ih: "nxt h1 \<le> nxt h'"
    "deques h' (selections ctx') = deques h1 (selections c1) @ new"
    "map type_name new = map fst calls" "map name new = map (fst \<circ> snd) calls"
    "\<And>a. a < nxt h1 \<Longrightarrow> deques h' a = deques h1 a \<and> dicts h' a = dicts h1 a"
    by blast
  have 1: "nxt h \<le> nxt h'" using ih(1) h1(1) by simp
  have 2: "deques h' (selections ctx') = deques h (selections ctx) @ (Field tn fn (nxt h) [] # new)"
    using ih(2) h1(2) by simp
  have 3: "map type_name (Field tn fn (nxt h) [] # new) = map fst (c # calls)"
          "map name (Field tn fn (nxt h) [] # new) = map (fst \<circ> snd) (c # calls)"
    using ih(3,4) c by simp_all
  have 4: "\<forall>a<nxt h. deques h' a = deques h a \<and> dicts h' a = dicts h a"
    using ih(5) h1(1,3) by (metis less_Suc_eq)
  from 1 2 3 4 show ?case by blast
qed

lemma update_fresh: "k \<notin> fst ` set al \<Longrightarrow> AList.update k v al = al @ [(k, v)]"
  by (induction al) auto

lemma new_leaves_spec:
  "new_leaves h tn kvs acc = (h', cs) \<Longrightarrow>
     deques h' = deques h \<and> nxt h' = nxt h + length kvs
     \<and> (\<forall>a. dicts h' a = (if nxt h \<le> a \<and> a < nxt h + length kvs then [] else dicts h a))
     \<and> (distinct (map fst kvs) \<and> fst ` set kvs \<inter> fst ` set acc = {} \<longrightarrow>
          cs = acc @ map (\<lambda>p. (fst (snd p), Field tn (snd (snd p)) (fst p) [])) (enumerate (nxt h) kvs))"
proof (induction kvs arbitrary: h acc)
  case Nil
  then show ?case by auto
next
  case (Cons kv kvs)
  let ?h1 = "h\<lparr>dicts := (dicts h)(nxt h := []), nxt := Suc (nxt h)\<rparr>"
  let ?acc = "AList.update (fst kv) (Field tn (snd kv) (nxt h) []) acc"
  from Cons.prems have r: "new_leaves ?h1 tn kvs ?acc = (h', cs)"
    by (simp add: new_dict_def)
  note ih = Cons.IH[OF r]
  have a: "deques h' = deques h" "nxt h' = nxt h + length (kv # kvs)" using ih by simp_all
  have b: "\<forall>a. dicts h' a = (if nxt h \<le> a \<and> a < nxt h + length (kv # kvs) then [] else dicts h a)"
    using ih by auto
  have c: "distinct (map fst (kv # kvs)) \<and> fst ` set (kv # kvs) \<inter> fst ` set acc = {} \<longrightarrow>
          cs = acc @ map (\<lambda>p. (fst (snd p), Field tn (snd (snd p)) (fst p) [])) (enumerate (nxt h) (kv # kvs))"
  proof
    assume d: "distinct (map fst (kv # kvs)) \<and> fst ` set (kv # kvs) \<inter> fst ` set acc = {}"
    then have u: "?acc = acc @ [(fst kv, Field tn (snd kv) (nxt h) [])]"
      by (intro update_fresh) auto
    have "distinct (map fst kvs) \<and> fst ` set kvs \<inter> fst ` set ?acc = {}"
      using d unfolding u by auto
    with ih have "cs = ?acc @ map (\<lambda>p. (fst (snd p), Field tn (snd (snd p)) (fst p) [])) (enumerate (nxt ?h1) kvs)"
      by blast
    then show "cs = acc @ map (\<lambda>p. (fst (snd p), Field tn (snd (snd p)) (fst p) [])) (enumerate (nxt h) (kv # kvs))"
      unfolding u by simp
  qed
  from a b c show ?case by blast
qed

lemma map_enumerate_snd: "map (\<lambda>p. g (snd p)) (enumerate n xs) = map g xs"
  by (induction xs arbitrary: n) simp_all

lemma select_multiple_spec:
  assumes d: "deques h (selections self) = fs @ [parent]" and k: "distinct (map fst kw)"
  shows "\<exists>h' self' cs. select_multiple h self tn kw = Inr (h', self')
       \<and> nxt h \<le> nxt h' \<and> selections self' = nxt h
       \<and> (\<forall>a<nxt h. deques h' a = deques h a \<and> dicts h' a = dicts h a)
       \<and> deques h' (selections self') = fs @ [Field (type_name parent) (name parent) (args parent) cs]
       \<and> map fst cs = map fst kw
       \<and> map (name \<circ> snd) cs = map snd kw
       \<and> list_all (\<lambda>c. type_name (snd c) = tn \<and> children (snd c) = [] \<and> dicts h' (args (snd c)) = []) cs"
proof -
  let ?h2 = "h\<lparr>nxt := Suc (nxt h), deques := (deques h)(nxt h := fs)\<rparr>"
  obtain h3 cs where nl: "new_leaves ?h2 tn kw [] = (h3, cs)"
    by (cases "new_leaves ?h2 tn kw []") auto
  let ?f = "Field (type_name parent) (name parent) (args parent) cs"
  let ?h4 = "h3\<lparr>deques := (deques h3)(nxt h := deques h3 (nxt h) @ [?f])\<rparr>"
  have sm: "select_multiple h self tn kw = Inr (?h4, self\<lparr>selections := nxt h\<rparr>)"
    using d nl
    by (simp add: select_multiple_def deque_copy_def new_deque_def deque_pop_def deque_append_def)
  from new_leaves_spec[OF nl] k
  have s: "deques h3 = deques ?h2" "nxt h3 = nxt ?h2 + length kw"
    "\<And>a. dicts h3 a = (if nxt ?h2 \<le> a \<and> a < nxt ?h2 + length kw then [] else dicts ?h2 a)"
    "cs = map (\<lambda>p. (fst (snd p), Field tn (snd (snd p)) (fst p) [])) (enumerate (nxt ?h2) kw)"
    by auto
  have 1: "nxt h \<le> nxt ?h4" using s(2) by simp
  have 2: "\<forall>a<nxt h. deques ?h4 a = deques h a \<and> dicts ?h4 a = dicts h a"
    using s(1,3) by simp
  have 3: "deques ?h4 (selections (self\<lparr>selections := nxt h\<rparr>)) = fs @ [?f]"
    using s(1) by simp
  have 4: "map fst cs = map fst kw"
    unfolding s(4) by (simp add: comp_def map_enumerate_snd)
  have 5: "map (name \<circ> snd) cs = map snd kw"
    unfolding s(4) by (simp add: comp_def map_enumerate_snd)
  have 6: "list_all (\<lambda>c. type_name (snd c) = tn \<and> children (snd c) = [] \<and> dicts ?h4 (args (snd c)) = []) cs"
    unfolding s(4) using s(3) by (auto simp: list_all_iff in_set_enumerate_eq)
  from sm 1 2 3 4 5 6 show ?thesis by (intro exI[of _ ?h4] exI[of _ "self\<lparr>selections := nxt h\<rparr>"] exI[of _ cs]) simp
qed

lemma select_multiple_frame:
  assumes "select_multiple h self tn kw = Inr (h', self')"
  shows "nxt h \<le> nxt h' \<and> selections self' = nxt h
       \<and> (\<forall>a<nxt h. deques h' a = deques h a \<and> dicts h' a = dicts h a)"
proof (cases "deques h (selections self) = []")
  case True
  with assms show ?thesis
    by (simp add: select_multiple_def deque_copy_def new_deque_def deque_pop_def)
next
  case False
  let ?h2 = "h\<lparr>nxt := Suc (nxt h), deques := (deques h)(nxt h := butlast (deques h (selections self)))\<rparr>"
  obtain h3 cs where nl: "new_leaves ?h2 tn kw [] = (h3, cs)"
    by (cases "new_leaves ?h2 tn kw []") auto
  let ?f = "Field (type_name (last (deques h (selections self)))) (name (last (deques h (selections self))))
              (args (last (deques h (selections self)))) cs"
  let ?h4 = "h3\<lparr>deques := (deques h3)(nxt h := deques h3 (nxt h) @ [?f])\<rparr>"
  have sm: "select_multiple h self tn kw = Inr (?h4, self\<lparr>selections := nxt h\<rparr>)"
    using False nl
    by (simp add: select_multiple_def deque_copy_def new_deque_def deque_pop_def deque_append_def)
  from new_leaves_spec[OF nl]
  have s: "deques h3 = deques ?h2" "nxt h3 = nxt ?h2 + length kw"
    "\<And>a. dicts h3 a = (if nxt ?h2 \<le> a \<and> a < nxt ?h2 + length kw then [] else dicts ?h2 a)"
    by auto
  from sm assms have e: "h' = ?h4" "self' = self\<lparr>selections := nxt h\<rparr>" by simp_all
  show ?thesis unfolding e using s by simp
qed

lemma select_frame:
  assumes "select h ctx tn fn as = (h', ctx')"
  shows "nxt h \<le> selections ctx'
     \<and> deques h' (selections ctx') = deques h (selections ctx) @ [Field tn fn (nxt h) []]
     \<and> (\<forall>a<nxt h. deques h' a = deques h a \<and> dicts h' a = dicts h a)"
proof -
  from assms have e: "h' = fst (select h ctx tn fn as)" "ctx' = snd (select h ctx tn fn as)"
    by simp_all
  show ?thesis unfolding e select_eq by simp
qed

lemma selects_length:
  assumes "selects h ctx calls = (h', ctx')"
  shows "length (deques h' (selections ctx')) = length (deques h (selections ctx)) + length calls
     \<and> (\<forall>a<nxt h. deques h' a = deques h a \<and> dicts h' a = dicts h a)"
proof -
  from selects_frame[OF assms] obtain new where
    n: "deques h' (selections ctx') = deques h (selections ctx) @ new" "map type_name new = map fst calls"
    and f: "\<forall>a<nxt h. deques h' a = deques h a \<and> dicts h' a = dicts h a"
    by blast
  from n(2) have "length new = length calls" by (metis length_map)
  with n(1) f show ?thesis by simp
qed

lemma chain1_eval:
  "selections (snd chain1) = 2" "nxt (fst chain1) = 3"
  "deques (fst chain1) 2 = [Field ''Query'' ''container'' 1 []]"
  "dicts (fst chain1) 1 = []"
  "schema (snd chain1) = schema0"
  by (simp_all add: chain1_def root0_eval select_eq select_args_def dict_of_def eval_nat_numeral)


text \<open>
  Claim C1. \<^verbatim>\<open>select\<close> returns a Context on a new deque, the receiver's nodes followed
  by the new node, so a sequence of \<^verbatim>\<open>select\<close> calls makes the node sequence longer by
  the number of calls (from the root, where it is empty, its length is that number).
  Neither \<^verbatim>\<open>select\<close> nor \<^verbatim>\<open>select_multiple\<close> changes any object that existed before the
  call: every deque and every argument dict at an address below \<open>nxt h\<close> is the same
  afterwards, the receiver's deque and the argument dicts of its nodes among them.
\<close>

theorem select_never_mutates:
  "(\<forall>h' ctx'. select h ctx tn fn as = (h', ctx') \<longrightarrow>
       nxt h \<le> selections ctx'
     \<and> deques h' (selections ctx') = deques h (selections ctx) @ [Field tn fn (nxt h) []]
     \<and> (\<forall>a<nxt h. deques h' a = deques h a \<and> dicts h' a = dicts h a))
   \<and> (\<forall>h' ctx'. selects h ctx calls = (h', ctx') \<longrightarrow>
       length (deques h' (selections ctx')) = length (deques h (selections ctx)) + length calls
     \<and> (\<forall>a<nxt h. deques h' a = deques h a \<and> dicts h' a = dicts h a))
   \<and> (\<forall>h' ctx'. select_multiple h ctx tn kw = Inr (h', ctx') \<longrightarrow>
       nxt h \<le> selections ctx'
     \<and> (\<forall>a<nxt h. deques h' a = deques h a \<and> dicts h' a = dicts h a))"
proof (intro conjI)
  show "\<forall>h' ctx'. select h ctx tn fn as = (h', ctx') \<longrightarrow>
       nxt h \<le> selections ctx'
     \<and> deques h' (selections ctx') = deques h (selections ctx) @ [Field tn fn (nxt h) []]
     \<and> (\<forall>a<nxt h. deques h' a = deques h a \<and> dicts h' a = dicts h a)"
    using select_frame by blast
  show "\<forall>h' ctx'. selects h ctx calls = (h', ctx') \<longrightarrow>
       length (deques h' (selections ctx')) = length (deques h (selections ctx)) + length calls
     \<and> (\<forall>a<nxt h. deques h' a = deques h a \<and> dicts h' a = dicts h a)"
    using selects_length by blast
  show "\<forall>h' ctx'. select_multiple h ctx tn kw = Inr (h', ctx') \<longrightarrow>
       nxt h \<le> selections ctx'
     \<and> (\<forall>a<nxt h. deques h' a = deques h a \<and> dicts h' a = dicts h a)"
    using select_multiple_frame by (metis order_refl)
qed


text \<open>
  An instance: from the chain of one selection, two more \<^verbatim>\<open>select\<close> calls give a chain
  of three nodes, one \<^verbatim>\<open>select_multiple\<close> call succeeds, and the deque of the chain they
  started from still holds its one node after either.
\<close>

theorem select_never_mutates_witness:
  "(case selects (fst chain1) (snd chain1) calls23 of
      (h', ctx') \<Rightarrow> length (deques h' (selections ctx')) = 3
         \<and> deques h' (selections (snd chain1)) = [Field ''Query'' ''container'' 1 []])
   \<and> (case select_multiple (fst chain1) (snd chain1) ''Container'' [(''a'', ''stdout''), (''b'', ''stderr'')] of
        Inl e \<Rightarrow> False
      | Inr (h', ctx') \<Rightarrow> deques h' (selections (snd chain1)) = [Field ''Query'' ''container'' 1 []])"
proof -
  let ?h = "fst chain1" and ?c = "snd chain1"
  let ?kw = "[(''a'', ''stdout''), (''b'', ''stderr'')]"
  obtain h2 c2 where s: "selects ?h ?c calls23 = (h2, c2)"
    by (cases "selects ?h ?c calls23") auto
  have "deques ?h (selections ?c) = [] @ [Field ''Query'' ''container'' 1 []]"
    by (simp add: chain1_eval)
  from select_multiple_spec[OF this, of ?kw "''Container''"]
  obtain h3 c3 where m: "select_multiple ?h ?c ''Container'' ?kw = Inr (h3, c3)"
    by auto
  have lt: "selections ?c < nxt ?h" by (simp add: chain1_eval)
  from select_never_mutates[of ?h ?c "''Container''" "''x''" "[]" calls23 ?kw] s m
  have a: "length (deques h2 (selections c2)) = length (deques ?h (selections ?c)) + length calls23"
    and b: "\<forall>a<nxt ?h. deques h2 a = deques ?h a \<and> dicts h2 a = dicts ?h a"
    and c: "\<forall>a<nxt ?h. deques h3 a = deques ?h a \<and> dicts h3 a = dicts ?h a"
    by blast+
  from a have 1: "length (deques h2 (selections c2)) = 3"
    by (simp add: chain1_eval calls23_def)
  from b lt have 2: "deques h2 (selections ?c) = [Field ''Query'' ''container'' 1 []]"
    by (simp add: chain1_eval)
  from c lt have 3: "deques h3 (selections ?c) = [Field ''Query'' ''container'' 1 []]"
    by (simp add: chain1_eval)
  from 1 2 3 show ?thesis unfolding s m by simp
qed


text \<open>
  Claim C8. On a chain that is not empty, \<^verbatim>\<open>select_multiple\<close> returns a Context whose
  last node is the receiver's last node with its children replaced: one child per entry
  of the keyword arguments (their keys are distinct, as those of any Python dict), in
  their order, keyed by the alias, each with the type name given, the field name of
  its entry, an empty argument dict and no children. Whatever children the last node
  had are gone, so a second call leaves the aliases of the second call only.
\<close>

theorem select_multiple_replaces_children:
  assumes "deques h (selections self) = fs @ [parent]" and "distinct (map fst kw)"
  shows "\<exists>h' self' cs. select_multiple h self tn kw = Inr (h', self')
       \<and> deques h' (selections self') = fs @ [Field (type_name parent) (name parent) (args parent) cs]
       \<and> map fst cs = map fst kw
       \<and> map (name \<circ> snd) cs = map snd kw
       \<and> list_all (\<lambda>c. type_name (snd c) = tn \<and> children (snd c) = [] \<and> dicts h' (args (snd c)) = []) cs
       \<and> (\<forall>tn2 kw2. distinct (map fst kw2) \<longrightarrow>
            (\<exists>h2 self2 cs2. select_multiple h' self' tn2 kw2 = Inr (h2, self2)
               \<and> deques h2 (selections self2)
                   = fs @ [Field (type_name parent) (name parent) (args parent) cs2]
               \<and> map fst cs2 = map fst kw2))"
proof -
  from select_multiple_spec[OF assms, of tn] obtain h' self' cs where
    1: "select_multiple h self tn kw = Inr (h', self')"
    and 2: "deques h' (selections self') = fs @ [Field (type_name parent) (name parent) (args parent) cs]"
    and 3: "map fst cs = map fst kw" "map (name \<circ> snd) cs = map snd kw"
      "list_all (\<lambda>c. type_name (snd c) = tn \<and> children (snd c) = [] \<and> dicts h' (args (snd c)) = []) cs"
    by blast
  have 4: "\<exists>h2 self2 cs2. select_multiple h' self' tn2 kw2 = Inr (h2, self2)
               \<and> deques h2 (selections self2)
                   = fs @ [Field (type_name parent) (name parent) (args parent) cs2]
               \<and> map fst cs2 = map fst kw2" if "distinct (map fst kw2)" for tn2 kw2
    using select_multiple_spec[OF 2 that, of tn2] by auto
  from 1 2 3 4 show ?thesis by blast
qed


text \<open>
  An instance: on the chain of one selection, the aliases \<open>a\<close> and \<open>b\<close> are selected,
  and then the alias \<open>c\<close>, which alone remains.
\<close>

theorem select_multiple_replaces_children_witness:
  "\<exists>h' self' cs h2 self2 cs2.
      select_multiple (fst chain1) (snd chain1) ''Container'' [(''a'', ''stdout''), (''b'', ''stderr'')] = Inr (h', self')
    \<and> deques h' (selections self') = [Field ''Query'' ''container'' 1 cs]
    \<and> map fst cs = [''a'', ''b''] \<and> map (name \<circ> snd) cs = [''stdout'', ''stderr'']
    \<and> select_multiple h' self' ''Container'' [(''c'', ''id'')] = Inr (h2, self2)
    \<and> deques h2 (selections self2) = [Field ''Query'' ''container'' 1 cs2]
    \<and> map fst cs2 = [''c'']"
proof -
  have d: "deques (fst chain1) (selections (snd chain1)) = [] @ [Field ''Query'' ''container'' 1 []]"
    by (simp add: chain1_eval)
  have k: "distinct (map fst [(''a'', ''stdout''), (''b'', ''stderr'')])" by simp
  have k2: "distinct (map fst [(''c'', ''id'')])" by simp
  from select_multiple_replaces_children[OF d k, of "''Container''"] k2
  obtain h' self' cs where
    1: "select_multiple (fst chain1) (snd chain1) ''Container'' [(''a'', ''stdout''), (''b'', ''stderr'')] = Inr (h', self')"
    and 2: "deques h' (selections self') = [] @ [Field (type_name (Field ''Query'' ''container'' 1 [])) (name (Field ''Query'' ''container'' 1 [])) (args (Field ''Query'' ''container'' 1 [])) cs]"
    and 3: "map fst cs = map fst [(''a'', ''stdout''), (''b'', ''stderr'')]"
           "map (name \<circ> snd) cs = map snd [(''a'', ''stdout''), (''b'', ''stderr'')]"
    and 4: "\<forall>tn2 kw2. distinct (map fst kw2) \<longrightarrow>
            (\<exists>h2 self2 cs2. select_multiple h' self' tn2 kw2 = Inr (h2, self2)
               \<and> deques h2 (selections self2)
                   = [] @ [Field (type_name (Field ''Query'' ''container'' 1 [])) (name (Field ''Query'' ''container'' 1 [])) (args (Field ''Query'' ''container'' 1 [])) cs2]
               \<and> map fst cs2 = map fst kw2)"
    by blast
  from 4 k2 obtain h2 self2 cs2 where
    5: "select_multiple h' self' ''Container'' [(''c'', ''id'')] = Inr (h2, self2)"
    and 6: "deques h2 (selections self2)
                   = [] @ [Field (type_name (Field ''Query'' ''container'' 1 [])) (name (Field ''Query'' ''container'' 1 [])) (args (Field ''Query'' ''container'' 1 [])) cs2]"
    and 7: "map fst cs2 = map fst [(''c'', ''id'')]"
    by blast
  from 1 2 3 5 6 7 show ?thesis
    by (intro exI[of _ h'] exI[of _ self'] exI[of _ cs] exI[of _ h2] exI[of _ self2] exI[of _ cs2]) simp
qed

subsection \<open>Arguments of a selection\<close>

lemma dict_of_snoc: "dict_of (xs @ [x]) = AList.update (fst x) (snd x) (dict_of xs)"
  by (simp add: dict_of_def)

lemma map_of_dict_of: "map_of (dict_of items) = map_of (rev items)"
proof (induction items rule: rev_induct)
  case Nil
  show ?case by (simp add: dict_of_def)
next
  case (snoc x xs)
  then show ?case by (cases x) (simp add: dict_of_snoc update_conv')
qed

lemma map_of_rev_distinct: "distinct (map fst xs) \<Longrightarrow> map_of (rev xs) = map_of xs"
  by (metis distinct_rev map_of_inject_set rev_map set_rev)

lemma map_of_select_args:
  assumes "distinct (map arg_name as)" and "a \<in> set as"
  shows "map_of (select_args as) (arg_name a)
       = (if is_same (arg_value a) (arg_default a) then None else Some (as_input a))"
proof -
  let ?kept = "filter (\<lambda>arg. is_not (arg_value arg) (arg_default arg)) as"
  let ?items = "map (\<lambda>arg. (arg_name arg, as_input arg)) ?kept"
  have d: "distinct (map fst ?items)"
    using assms(1) by (simp add: comp_def distinct_map_filter)
  have m: "map_of (select_args as) = map_of ?items"
    unfolding select_args_def map_of_dict_of using d by (rule map_of_rev_distinct)
  show ?thesis
  proof (cases "is_same (arg_value a) (arg_default a)")
    case True
    have "arg_name a \<notin> fst ` set ?items"
    proof
      assume "arg_name a \<in> fst ` set ?items"
      then obtain b where b: "b \<in> set as" "is_not (arg_value b) (arg_default b)" "arg_name b = arg_name a"
        by auto
      with assms have "b = a" by (meson distinct_map inj_onD)
      with b True show False by (simp add: is_not_def)
    qed
    then have "map_of ?items (arg_name a) = None" by (simp add: map_of_eq_None_iff)
    with m True show ?thesis by simp
  next
    case False
    then have "(arg_name a, as_input a) \<in> set ?items" using assms(2) by (auto simp: is_not_def)
    with d have "map_of ?items (arg_name a) = Some (as_input a)" by (rule map_of_is_SomeI)
    with m False show ?thesis by simp
  qed
qed



text \<open>
  Claim C3, as the code has it. The test of \<^verbatim>\<open>select\<close> is \<^verbatim>\<open>arg.value is not arg.default\<close>,
  an identity test. With argument names that are distinct, the argument dict of the new
  node has no entry for an argument whose value is the same object as its default, and
  has the encoded value for every other argument: the dict of its fields for a
  structured input, the list of such dicts for a sequence of structured inputs, the
  value itself otherwise. In particular an argument whose value differs from its
  default (two objects with different contents) is kept.
\<close>

theorem select_omits_default_object:
  assumes "distinct (map arg_name as)" and "a \<in> set as"
  shows "case select h self tn fn as of
     (h', self') \<Rightarrow>
        deques h' (selections self') = deques h (selections self) @ [Field tn fn (nxt h) []]
      \<and> map_of (dicts h' (nxt h)) (arg_name a)
          = (if is_same (arg_value a) (arg_default a) then None else Some (as_input a))
      \<and> (content (arg_value a) \<noteq> content (arg_default a)
           \<and> ident (arg_value a) \<noteq> ident (arg_default a)
          \<longrightarrow> map_of (dicts h' (nxt h)) (arg_name a) = Some (as_input a))
      \<and> (\<forall>fs. content (arg_value a) = VInput fs \<longrightarrow>
            as_input a = VDict (map (map_prod id asdict) fs))
      \<and> (is_input_seq (content (arg_value a)) \<longrightarrow>
            as_input a = VList (map asdict (elements (content (arg_value a)))))
      \<and> (\<not> is_input (content (arg_value a)) \<and> \<not> is_input_seq (content (arg_value a)) \<longrightarrow>
            as_input a = content (arg_value a))"
proof -
  have 1: "map_of (select_args as) (arg_name a)
       = (if is_same (arg_value a) (arg_default a) then None else Some (as_input a))"
    using assms by (rule map_of_select_args)
  have 2: "content (arg_value a) \<noteq> content (arg_default a)
           \<and> ident (arg_value a) \<noteq> ident (arg_default a) \<longrightarrow> \<not> is_same (arg_value a) (arg_default a)"
    by (simp add: is_same_def)
  have 3: "\<forall>fs. content (arg_value a) = VInput fs \<longrightarrow>
            as_input a = VDict (map (map_prod id asdict) fs)"
    by (simp add: as_input_def)
  have 4: "is_input_seq (content (arg_value a)) \<longrightarrow>
            as_input a = VList (map asdict (elements (content (arg_value a))))"
    by (cases "content (arg_value a)") (simp_all add: as_input_def)
  have 5: "\<not> is_input (content (arg_value a)) \<and> \<not> is_input_seq (content (arg_value a)) \<longrightarrow>
            as_input a = content (arg_value a)"
    by (simp add: as_input_def)
  from 1 2 3 4 5 show ?thesis
    unfolding select_eq by simp
qed


text \<open>
  An instance: \<^verbatim>\<open>id\<close> is \<^verbatim>\<open>None\<close>, its default, and is left out; \<^verbatim>\<open>platform\<close> is a
  string and is kept.
\<close>

theorem select_omits_default_object_witness:
  "case select (fst root0) (snd root0) ''Query'' ''container''
          [Arg ''id'' (Obj 5 VNone) (Obj 6 VNone),
           Arg ''platform'' (Obj 7 (VStr ''linux/amd64'')) (Obj 6 VNone)] of
     (h', self') \<Rightarrow>
        deques h' (selections self') = [Field ''Query'' ''container'' 1 []]
      \<and> map_of (dicts h' 1) ''id'' = None
      \<and> map_of (dicts h' 1) ''platform'' = Some (VStr ''linux/amd64'')"
proof -
  let ?a = "Arg ''id'' (Obj 5 VNone) (Obj 6 VNone)"
  let ?b = "Arg ''platform'' (Obj 7 (VStr ''linux/amd64'')) (Obj 6 VNone)"
  have d: "distinct (map arg_name [?a, ?b])" by simp
  have ia: "?a \<in> set [?a, ?b]" and ib: "?b \<in> set [?a, ?b]" by simp_all
  from select_omits_default_object[OF d ia, of "fst root0" "snd root0" "''Query''" "''container''"]
       select_omits_default_object[OF d ib, of "fst root0" "snd root0" "''Query''" "''container''"]
  show ?thesis
    by (simp add: case_prod_beta root0_eval is_same_def as_input_def)
qed


text \<open>
  Claim C3 as stated fails on the code: the value \<^verbatim>\<open>["ls"]\<close> equals the default
  \<^verbatim>\<open>["ls"]\<close>, the two lists are two objects, and the argument is in the compiled
  argument dict.
\<close>

theorem select_equal_default_kept_counterexample:
  "content (Obj 7 (VList [VStr ''ls''])) = content (Obj 8 (VList [VStr ''ls'']))
   \<and> (case select (fst root0) (snd root0) ''Query'' ''container''
              [Arg ''args'' (Obj 7 (VList [VStr ''ls''])) (Obj 8 (VList [VStr ''ls'']))] of
        (h', self') \<Rightarrow> deques h' (selections self') = [Field ''Query'' ''container'' 1 []]
            \<and> dicts h' 1 = [(''args'', VList [VStr ''ls''])])"
  by (simp add: select_eq root0_eval select_args_def dict_of_def is_not_def is_same_def as_input_def)

subsection \<open>The end-to-end scenario\<close>

text \<open>
  Claim C2. From a root Context (an empty chain) on a schema that has the fields
  \<^verbatim>\<open>Query.container\<close>, \<^verbatim>\<open>Container.from(image)\<close> and \<^verbatim>\<open>Container.id\<close>, the three
  \<^verbatim>\<open>select\<close> calls give a chain of three nodes; the fold of \<^verbatim>\<open>build\<close> makes each node
  the only child of the one before; \<^verbatim>\<open>build\<close> returns the root field \<^verbatim>\<open>container\<close> with
  the sub-selection \<^verbatim>\<open>from(image: "alpine")\<close> and in it \<^verbatim>\<open>id\<close>; and \<^verbatim>\<open>get_value\<close> on the
  payload, with return type \<^verbatim>\<open>str\<close>, walks the three names and returns \<^verbatim>\<open>"abc123"\<close>.
\<close>

theorem container_from_id_end_to_end:
  assumes "deques h (selections root) = []"
    and "schema root ''Query'' = Some q" and "q ''container'' = Some ps1"
    and "schema root ''Container'' = Some c" and "c ''from'' = Some ps2" and "''image'' \<in> set ps2"
    and "c ''id'' = Some ps3"
  shows "case selects h root
           [(''Query'', ''container'', []),
            (''Container'', ''from'', [Arg ''image'' (Obj i (VStr ''alpine'')) MISSING]),
            (''Container'', ''id'', [])] of
     (h', ctx) \<Rightarrow>
        deques h' (selections ctx)
          = [Field ''Query'' ''container'' (nxt h) [],
             Field ''Container'' ''from'' (nxt h + 2) [],
             Field ''Container'' ''id'' (nxt h + 4) []]
      \<and> foldl collapse (Field ''Container'' ''id'' (nxt h + 4) [])
            [Field ''Container'' ''from'' (nxt h + 2) [], Field ''Query'' ''container'' (nxt h) []]
          = Field ''Query'' ''container'' (nxt h)
              [(''from'', Field ''Container'' ''from'' (nxt h + 2)
                 [(''id'', Field ''Container'' ''id'' (nxt h + 4) [])])]
      \<and> build h' ctx
          = Inr (DSLField ''Query'' ''container'' []
                  [(''from'', DSLField ''Container'' ''from'' [(''image'', VStr ''alpine'')]
                     [(''id'', DSLField ''Container'' ''id'' [] [])])])
      \<and> get_value other h' ctx
            (VDict [(''container'', VDict [(''from'', VDict [(''id'', VStr ''abc123'')])])]) TStr
          = Inr (VStr ''abc123'')"
  using assms
  by (simp add: select_eq select_args_def dict_of_def is_not_def is_same_def MISSING_def
      as_input_def build_def collapse_def add_child_def apply_args_def get_value_def)


text \<open>
  An instance: the root Context on the schema \<open>schema0\<close>.
\<close>

theorem container_from_id_end_to_end_witness:
  "case selects (fst root0) (snd root0) (
           (''Query'', ''container'', []) # calls23) of
     (h', ctx) \<Rightarrow>
        build h' ctx
          = Inr (DSLField ''Query'' ''container'' []
                  [(''from'', DSLField ''Container'' ''from'' [(''image'', VStr ''alpine'')]
                     [(''id'', DSLField ''Container'' ''id'' [] [])])])
      \<and> get_value (\<lambda>v t. Inl (TypeError [])) h' ctx payload0 TStr = Inr (VStr ''abc123'')"
proof -
  have 1: "deques (fst root0) (selections (snd root0)) = []" by (simp add: root0_eval)
  have 2: "schema (snd root0) ''Query'' = Some (\<lambda>n. if n = ''container'' then Some [] else None)"
    by (simp add: root0_eval schema0_def)
  have 3: "(\<lambda>n. if n = ''container'' then Some [] else None) ''container'' = Some []" by simp
  let ?c = "\<lambda>n. if n = ''from'' then Some [''image'']
                  else if n = ''id'' \<or> n = ''stdout'' \<or> n = ''stderr'' then Some []
                  else None"
  have 4: "schema (snd root0) ''Container'' = Some ?c"
    by (simp add: root0_eval schema0_def)
  have 5: "?c ''from'' = Some [''image'']" by simp
  have 6: "''image'' \<in> set [''image'']" by simp
  have 7: "?c ''id'' = Some []" by simp
  from container_from_id_end_to_end[OF 1 2 3 4 5 6 7, where i = 7 and other = "\<lambda>v t. Inl (TypeError [])"]
  show ?thesis
    unfolding calls23_def payload0_def case_prod_beta by blast
qed

subsection \<open>Decoding\<close>

lemma walk_append:
  "walk (pre @ post) v = (case walk pre v of Inl e \<Rightarrow> Inl e | Inr x \<Rightarrow> walk post x)"
proof (induction pre arbitrary: v)
  case Nil
  show ?case by simp
next
  case (Cons f pre)
  show ?case
  proof (cases v)
    case (VDict d)
    then show ?thesis using Cons.IH by (simp split: option.splits)
  qed (cases post; simp)+
qed


text \<open>
  Claim C7. When the walk ends in \<^verbatim>\<open>None\<close>, \<^verbatim>\<open>get_value\<close> raises \<^verbatim>\<open>InvalidQueryError\<close>
  with the message "Required field got a null response. Check if parent fields are
  valid." exactly when the return type does not accept \<^verbatim>\<open>None\<close>; when it does, the
  result is \<^verbatim>\<open>None\<close>.
\<close>

theorem get_value_null:
  assumes "walk (deques h (selections self)) v = Inr VNone"
  shows "(get_value other h self v t
            = Inl (InvalidQueryError ''Required field got a null response. Check if parent fields are valid.'')
          \<longleftrightarrow> \<not> is_bearable_None t)
       \<and> (is_bearable_None t \<longrightarrow> get_value other h self v t = Inr VNone)"
  using assms by (cases t) (simp_all add: get_value_def)


text \<open>
  An instance: the payload \<^verbatim>\<open>{"container": None}\<close> on the chain of one selection, with
  the return types \<^verbatim>\<open>str\<close> and \<^verbatim>\<open>Optional[str]\<close>.
\<close>

theorem get_value_null_witness:
  "walk (deques (fst chain1) (selections (snd chain1))) (VDict [(''container'', VNone)]) = Inr VNone
   \<and> get_value (\<lambda>v t. Inl (TypeError [])) (fst chain1) (snd chain1) (VDict [(''container'', VNone)]) TStr
       = Inl (InvalidQueryError ''Required field got a null response. Check if parent fields are valid.'')
   \<and> get_value (\<lambda>v t. Inl (TypeError [])) (fst chain1) (snd chain1) (VDict [(''container'', VNone)]) (TOptional TStr)
       = Inr VNone"
proof -
  have w: "walk (deques (fst chain1) (selections (snd chain1))) (VDict [(''container'', VNone)]) = Inr VNone"
    by (simp add: chain1_eval)
  from get_value_null[OF w, of "\<lambda>v t. Inl (TypeError [])" TStr]
       get_value_null[OF w, of "\<lambda>v t. Inl (TypeError [])" "TOptional TStr"] w
  show ?thesis by simp
qed

text \<open>
  Claim C10. When the walk has come to a node of the chain with a dict that does not
  have the node's name as a key, \<^verbatim>\<open>get_value\<close> raises \<^verbatim>\<open>KeyError\<close>, which is not one
  of the errors of the package: the guard of the loop only stops at a value that is
  not a dict.
\<close>

theorem get_value_missing_key:
  assumes "deques h (selections self) = pre @ f # post"
    and "walk pre v = Inr (VDict d)"
    and "map_of d (name f) = None"
  shows "get_value other h self v t = Inl (KeyError (name f))"
  using assms by (simp add: get_value_def walk_append)


text \<open>
  An instance: the payload \<^verbatim>\<open>{"data": None}\<close> on the chain of the one selection
  \<^verbatim>\<open>container\<close>.
\<close>

theorem get_value_missing_key_witness:
  "deques (fst chain1) (selections (snd chain1)) = [] @ Field ''Query'' ''container'' 1 [] # []
   \<and> walk [] (VDict [(''data'', VNone)]) = Inr (VDict [(''data'', VNone)])
   \<and> map_of [(''data'', VNone)] (name (Field ''Query'' ''container'' 1 [])) = None
   \<and> get_value (\<lambda>v t. Inl (TypeError [])) (fst chain1) (snd chain1) (VDict [(''data'', VNone)]) TStr
       = Inl (KeyError ''container'')"
proof -
  have a: "deques (fst chain1) (selections (snd chain1)) = [] @ Field ''Query'' ''container'' 1 [] # []"
    by (simp add: chain1_eval)
  have b: "walk [] (VDict [(''data'', VNone)]) = Inr (VDict [(''data'', VNone)])" by simp
  have c: "map_of [(''data'', VNone)] (name (Field ''Query'' ''container'' 1 [])) = None" by simp
  from get_value_missing_key[OF a b c] a b c show ?thesis by simp
qed


subsection \<open>Resolving handles\<close>

lemma update_middle:
  "k \<notin> fst ` set xs \<Longrightarrow> AList.update k w (xs @ (k, v) # ys) = xs @ (k, w) # ys"
  by (induction xs) auto

lemma scan_args_spec:
  assumes "dicts h a = done @ kvs" and "distinct (map fst (done @ kvs))"
  shows "scan_args h i a kvs
       = (h\<lparr>dicts := (dicts h)(a := done @ map (map_prod id listed) kvs)\<rparr>,
          concat (map (entry_tasks i) kvs))"
  using assms
proof (induction kvs arbitrary: h "done")
  case Nil
  then show ?case by (simp add: fun_upd_idem)
next
  case (Cons kv kvs)
  obtain k v where kv: "kv = (k, v)" by (cases kv)
  from Cons.prems kv have nk: "k \<notin> fst ` set done" by auto
  show ?case
  proof (cases "is_id_type_sequence v")
    case True
    let ?h1 = "setitem h a k (VList (elements v))"
    have d1: "dicts ?h1 a = (done @ [(k, listed v)]) @ kvs"
      using Cons.prems(1) kv nk True by (simp add: setitem_def update_middle listed_def)
    have d2: "distinct (map fst ((done @ [(k, listed v)]) @ kvs))"
      using Cons.prems(2) kv by simp
    have e: "?h1\<lparr>dicts := (dicts ?h1)(a := (done @ [(k, listed v)]) @ map (map_prod id listed) kvs)\<rparr>
           = h\<lparr>dicts := (dicts h)(a := done @ map (map_prod id listed) (kv # kvs))\<rparr>"
      using kv by (simp add: setitem_def)
    have "scan_args h i a (kv # kvs)
        = (fst (scan_args ?h1 i a kvs), seq_tasks i k (elements v) @ snd (scan_args ?h1 i a kvs))"
      using True kv by (simp add: case_prod_beta)
    also have "\<dots> = (h\<lparr>dicts := (dicts h)(a := done @ map (map_prod id listed) (kv # kvs))\<rparr>,
          concat (map (entry_tasks i) (kv # kvs)))"
      unfolding Cons.IH[OF d1 d2] fst_conv snd_conv e using True kv
      by (simp add: entry_tasks_def)
    finally show ?thesis .
  next
    case False
    have d1: "dicts h a = (done @ [(k, listed v)]) @ kvs"
      using Cons.prems(1) kv False by (simp add: listed_def)
    have d2: "distinct (map fst ((done @ [(k, listed v)]) @ kvs))"
      using Cons.prems(2) kv by simp
    from Cons.IH[OF d1 d2] False kv show ?thesis
      by (simp add: entry_tasks_def listed_def)
  qed
qed

lemma scan_spec:
  assumes "distinct (map args sels)" and "\<forall>f\<in>set sels. distinct (map fst (dicts h (args f)))"
  shows "scan h i sels
       = (h\<lparr>dicts := (\<lambda>a. if a \<in> args ` set sels then map (map_prod id listed) (dicts h a)
                            else dicts h a)\<rparr>,
          concat (map (field_tasks h) (enumerate i sels)))"
  using assms
proof (induction sels arbitrary: h i)
  case Nil
  show ?case by simp
next
  case (Cons sel sels)
  let ?a = "args sel"
  let ?h1 = "h\<lparr>dicts := (dicts h)(?a := map (map_prod id listed) (dicts h ?a))\<rparr>"
  have sa: "scan_args h i ?a (dicts h ?a) = (?h1, field_tasks h (i, sel))"
    using scan_args_spec[of h ?a "[]" "dicts h ?a" i] Cons.prems(2)
    by (simp add: field_tasks_def)
  have na: "?a \<notin> args ` set sels" using Cons.prems(1) by auto
  have same: "dicts ?h1 (args f) = dicts h (args f)" if "f \<in> set sels" for f
  proof -
    from that na have "args f \<noteq> ?a" by (metis imageI)
    then show ?thesis by simp
  qed
  have d1: "distinct (map args sels)" using Cons.prems(1) by simp
  have d2: "\<forall>f\<in>set sels. distinct (map fst (dicts ?h1 (args f)))"
    using Cons.prems(2) same by simp
  have ft: "map (field_tasks ?h1) (enumerate (Suc i) sels) = map (field_tasks h) (enumerate (Suc i) sels)"
  proof (rule map_cong[OF refl])
    fix p assume "p \<in> set (enumerate (Suc i) sels)"
    then have "snd p \<in> snd ` set (enumerate (Suc i) sels)" by (rule imageI)
    then have "snd p \<in> set sels" by (simp only: set_map[symmetric] map_snd_enumerate)
    from same[OF this] show "field_tasks ?h1 p = field_tasks h p"
      by (simp only: field_tasks_def)
  qed
  have hp: "?h1\<lparr>dicts := (\<lambda>a. if a \<in> args ` set sels then map (map_prod id listed) (dicts ?h1 a)
                            else dicts ?h1 a)\<rparr>
          = h\<lparr>dicts := (\<lambda>a. if a \<in> args ` set (sel # sels) then map (map_prod id listed) (dicts h a)
                            else dicts h a)\<rparr>"
    using na by (auto simp: fun_eq_iff)
  have "scan h i (sel # sels)
      = (fst (scan ?h1 (Suc i) sels), field_tasks h (i, sel) @ snd (scan ?h1 (Suc i) sels))"
    by (simp add: sa case_prod_beta)
  also have "\<dots> = (h\<lparr>dicts := (\<lambda>a. if a \<in> args ` set (sel # sels) then map (map_prod id listed) (dicts h a)
                            else dicts h a)\<rparr>,
          concat (map (field_tasks h) (enumerate i (sel # sels))))"
    unfolding Cons.IH[OF d1 d2] fst_conv snd_conv ft hp by simp
  finally show ?case .
qed

lemma map_of_setitem:
  "map_of (dicts (setitem h a k v) b) j
     = (if b = a \<and> j = k then Some v else map_of (dicts h b) j)"
  by (simp add: setitem_def update_conv')

lemma deques_setitem: "deques (setitem h a k v) = deques h"
  by (simp add: setitem_def)

lemma run_task_frame:
  assumes "run_task fetch sels h t = Inr h'"
  shows "deques h' = deques h"
    and "\<not> (a = args (sels ! task_pos t) \<and> k = task_key t)
         \<Longrightarrow> map_of (dicts h' a) k = map_of (dicts h a) k"
  using assms
  by (cases t; auto simp: map_of_setitem deques_setitem
        split: if_splits sum.splits option.splits pyval.splits)+

lemma run_tasks_frame:
  assumes "run_tasks fetch sels h ts = Inr h'"
  shows "deques h' = deques h"
    and "\<forall>t\<in>set ts. \<not> (a = args (sels ! task_pos t) \<and> k = task_key t)
         \<Longrightarrow> map_of (dicts h' a) k = map_of (dicts h a) k"
  using assms
proof (induction ts arbitrary: h)
  case Nil
  { case 1 then show ?case by simp }
  { case 2 then show ?case by simp }
next
  case (Cons t ts)
  { case 1
    then obtain h1 where a: "run_task fetch sels h t = Inr h1" and b: "run_tasks fetch sels h1 ts = Inr h'"
      by (auto split: sum.splits)
    from Cons.IH(1)[OF b] run_task_frame(1)[OF a] show ?case by simp }
  { case 2
    then obtain h1 where a: "run_task fetch sels h t = Inr h1" and b: "run_tasks fetch sels h1 ts = Inr h'"
      by (auto split: sum.splits)
    from 2(1) have "\<forall>t\<in>set ts. \<not> (a = args (sels ! task_pos t) \<and> k = task_key t)"
      and "\<not> (a = args (sels ! task_pos t) \<and> k = task_key t)" by auto
    with Cons.IH(2)[OF _ b] run_task_frame(2)[OF a] show ?case by simp }
qed

lemma entry_tasks_target:
  "t \<in> set (entry_tasks i kv) \<Longrightarrow> task_pos t = i \<and> task_key t = fst kv"
  by (auto simp: entry_tasks_def seq_tasks_def split: if_splits)

lemma field_tasks_target:
  assumes "t \<in> set (concat (map (field_tasks h) (enumerate n xs)))"
  shows "n \<le> task_pos t \<and> task_pos t < n + length xs
       \<and> task_key t \<in> fst ` set (dicts h (args (xs ! (task_pos t - n))))"
proof -
  from assms obtain p kv where p: "p \<in> set (enumerate n xs)"
    and kv: "kv \<in> set (dicts h (args (snd p)))" and t: "t \<in> set (entry_tasks (fst p) kv)"
    by (auto simp: field_tasks_def)
  from entry_tasks_target[OF t] have e: "task_pos t = fst p" "task_key t = fst kv" by simp_all
  from p have q: "n \<le> fst p" "fst p < length xs + n" "xs ! (fst p - n) = snd p"
    by (simp_all add: in_set_enumerate_eq)
  from e q kv show ?thesis by auto
qed

lemma map_of_listed:
  assumes "distinct (map fst D)" and "(k, v) \<in> set D"
  shows "map_of (map (map_prod id listed) D) k = Some (listed v)"
proof -
  have "distinct (map fst (map (map_prod id listed) D))"
    using assms(1) by (simp add: comp_def)
  moreover have "(k, listed v) \<in> set (map (map_prod id listed) D)"
    using assms(2) by force
  ultimately show ?thesis by (rule map_of_is_SomeI)
qed

lemma distinct_map_nth:
  assumes "distinct (map f xs)" and "i < length xs" and "j < length xs" and "i \<noteq> j"
  shows "f (xs ! i) \<noteq> f (xs ! j)"
proof -
  have "(map f xs ! i = map f xs ! j) = (i = j)"
    by (rule nth_eq_iff_index_eq) (use assms in simp_all)
  with assms show ?thesis by simp
qed

lemma run_task_other:
  assumes "run_task fetch sels h t = Inr h'" and "\<not> assigns_to sels a k t"
  shows "map_of (dicts h' a) k = map_of (dicts h a) k"
  using run_task_frame(2)[OF assms(1), of a k] assms(2) by (auto simp: assigns_to_def)

lemma run_tasks_id_slot:
  assumes "run_tasks fetch sels h ts = Inr h'"
    and "\<forall>t\<in>set ts. assigns_to sels a k t \<longrightarrow> (\<exists>pos. t = ResolveId pos k v)"
  shows "if \<exists>t\<in>set ts. assigns_to sels a k t
         then \<exists>r. fetch v = Inr r \<and> map_of (dicts h' a) k = Some r
         else map_of (dicts h' a) k = map_of (dicts h a) k"
  using assms
proof (induction ts arbitrary: h)
  case Nil
  then show ?case by simp
next
  case (Cons t ts)
  from Cons.prems(1) obtain h1 where t: "run_task fetch sels h t = Inr h1"
    and rest: "run_tasks fetch sels h1 ts = Inr h'"
    by (auto split: sum.splits)
  have form: "\<forall>t\<in>set ts. assigns_to sels a k t \<longrightarrow> (\<exists>pos. t = ResolveId pos k v)"
    using Cons.prems(2) by simp
  note ih = Cons.IH[OF rest form]
  show ?case
  proof (cases "assigns_to sels a k t")
    case True
    with Cons.prems(2) obtain pos where tf: "t = ResolveId pos k v" by auto
    from True tf have a: "args (sels ! pos) = a" by (simp add: assigns_to_def)
    from t tf a obtain r where r: "fetch v = Inr r" "map_of (dicts h1 a) k = Some r"
      by (auto simp: map_of_setitem split: if_splits sum.splits)
    from ih r True show ?thesis by (auto split: if_splits)
  next
    case False
    from run_task_other[OF t False] ih False show ?thesis by (auto split: if_splits)
  qed
qed

lemma run_tasks_seq_slot:
  assumes "run_tasks fetch sels h ts = Inr h'"
    and "map_of (dicts h a) k = Some (VList xs)"
    and "\<forall>t\<in>set ts. assigns_to sels a k t \<longrightarrow> (\<exists>pos idx v. t = ResolveSeqId pos idx k v)"
    and "distinct (map task_idx (filter (assigns_to sels a k) ts))"
  shows "\<exists>ys. map_of (dicts h' a) k = Some (VList ys)
            \<and> length ys = length xs
            \<and> (\<forall>t\<in>set ts. assigns_to sels a k t \<longrightarrow> fetch (task_val t) = Inr (ys ! task_idx t))
            \<and> (\<forall>j<length xs. j \<notin> task_idx ` {t \<in> set ts. assigns_to sels a k t} \<longrightarrow> ys ! j = xs ! j)"
  using assms
proof (induction ts arbitrary: h xs)
  case Nil
  then show ?case by simp
next
  case (Cons t ts)
  from Cons.prems(1) obtain h1 where t: "run_task fetch sels h t = Inr h1"
    and rest: "run_tasks fetch sels h1 ts = Inr h'"
    by (auto split: sum.splits)
  have form: "\<forall>t\<in>set ts. assigns_to sels a k t \<longrightarrow> (\<exists>pos idx v. t = ResolveSeqId pos idx k v)"
    using Cons.prems(3) by simp
  show ?case
  proof (cases "assigns_to sels a k t")
    case True
    with Cons.prems(3) obtain pos idx v where tf: "t = ResolveSeqId pos idx k v" by auto
    from True tf have a: "args (sels ! pos) = a" by (simp add: assigns_to_def)
    from t tf a Cons.prems(2) obtain r where r: "fetch v = Inr r" and lt: "idx < length xs"
      and l1: "map_of (dicts h1 a) k = Some (VList (xs[idx := r]))"
      by (auto simp: map_of_setitem split: if_splits sum.splits)
    have d: "distinct (map task_idx (filter (assigns_to sels a k) ts))"
      and ni: "idx \<notin> task_idx ` {t \<in> set ts. assigns_to sels a k t}"
      using Cons.prems(4) True tf by auto
    from Cons.IH[OF rest l1 form d] obtain ys where
      ys: "map_of (dicts h' a) k = Some (VList ys)" "length ys = length xs"
        "\<forall>t\<in>set ts. assigns_to sels a k t \<longrightarrow> fetch (task_val t) = Inr (ys ! task_idx t)"
        "\<forall>j<length xs. j \<notin> task_idx ` {t \<in> set ts. assigns_to sels a k t} \<longrightarrow> ys ! j = (xs[idx := r]) ! j"
      by auto
    from ys(4) lt ni have "ys ! idx = r" by simp
    with r tf have 1: "\<forall>u\<in>set (t # ts). assigns_to sels a k u \<longrightarrow> fetch (task_val u) = Inr (ys ! task_idx u)"
      using ys(3) by simp
    have 2: "\<forall>j<length xs. j \<notin> task_idx ` {u \<in> set (t # ts). assigns_to sels a k u} \<longrightarrow> ys ! j = xs ! j"
    proof (intro allI impI)
      fix j assume j: "j < length xs" "j \<notin> task_idx ` {u \<in> set (t # ts). assigns_to sels a k u}"
      have "task_idx t \<in> task_idx ` {u \<in> set (t # ts). assigns_to sels a k u}"
        using True by (intro imageI) simp
      with j(2) have "j \<noteq> idx" using tf by auto
      moreover from j have "j \<notin> task_idx ` {u \<in> set ts. assigns_to sels a k u}" by auto
      ultimately show "ys ! j = xs ! j" using ys(4) j(1) by simp
    qed
    from ys(1,2) 1 2 show ?thesis by blast
  next
    case False
    from run_task_other[OF t False] Cons.prems(2)
    have l1: "map_of (dicts h1 a) k = Some (VList xs)" by simp
    have d: "distinct (map task_idx (filter (assigns_to sels a k) ts))"
      using Cons.prems(4) False by simp
    have e: "{u \<in> set (t # ts). assigns_to sels a k u} = {u \<in> set ts. assigns_to sels a k u}"
      using False by auto
    from Cons.IH[OF rest l1 form d] obtain ys where
      ys: "map_of (dicts h' a) k = Some (VList ys)" "length ys = length xs"
        "\<forall>t\<in>set ts. assigns_to sels a k t \<longrightarrow> fetch (task_val t) = Inr (ys ! task_idx t)"
        "\<forall>j<length xs. j \<notin> task_idx ` {t \<in> set ts. assigns_to sels a k t} \<longrightarrow> ys ! j = xs ! j"
      by auto
    from ys(3) False
    have 1: "\<forall>u\<in>set (t # ts). assigns_to sels a k u \<longrightarrow> fetch (task_val u) = Inr (ys ! task_idx u)"
      by simp
    from ys(1,2) 1 ys(4) show ?thesis unfolding e by blast
  qed
qed

lemma started_tasks_of_slot:
  assumes da: "distinct (map args sels)"
    and dD: "distinct (map fst (dicts h (args (sels ! pos))))"
    and pos: "pos < length sels"
    and kv: "(k, v) \<in> set (dicts h (args (sels ! pos)))"
  shows "filter (assigns_to sels (args (sels ! pos)) k) (concat (map (field_tasks h) (enumerate 0 sels)))
       = entry_tasks pos (k, v)"
proof -
  let ?a = "args (sels ! pos)"
  let ?D = "dicts h ?a"
  from kv obtain D1 D2 where D: "?D = D1 @ (k, v) # D2" by (auto dest: split_list)
  let ?A = "concat (map (field_tasks h) (enumerate 0 (take pos sels)))"
  let ?C = "concat (map (field_tasks h) (enumerate (Suc pos) (drop (Suc pos) sels)))"
  let ?B1 = "concat (map (entry_tasks pos) D1)"
  let ?B2 = "concat (map (entry_tasks pos) D2)"
  have sp: "sels = take pos sels @ sels ! pos # drop (Suc pos) sels"
    using pos by (rule id_take_nth_drop)
  have "enumerate 0 sels
      = enumerate 0 (take pos sels) @ (pos, sels ! pos) # enumerate (Suc pos) (drop (Suc pos) sels)"
    using pos by (subst sp) (simp add: enumerate_append_eq min_def)
  then have ts: "concat (map (field_tasks h) (enumerate 0 sels))
       = (?A @ ?B1) @ entry_tasks pos (k, v) @ (?B2 @ ?C)"
    by (simp add: field_tasks_def D)
  have other: "\<not> assigns_to sels ?a k t"
    if t: "t \<in> set (?A @ ?B1) \<union> set (?B2 @ ?C)" for t
  proof -
    from t consider "t \<in> set ?A" | "t \<in> set ?C" | "t \<in> set ?B1 \<union> set ?B2" by auto
    then show ?thesis
    proof cases
      case 1
      from field_tasks_target[OF this] pos have lt: "task_pos t < pos" by simp
      with pos have "args (sels ! pos) \<noteq> args (sels ! task_pos t)"
        by (intro distinct_map_nth[OF da]) simp_all
      then show ?thesis by (simp add: assigns_to_def)
    next
      case 2
      from field_tasks_target[OF this]
      have "Suc pos \<le> task_pos t" "task_pos t < Suc pos + length (drop (Suc pos) sels)"
        by blast+
      moreover have "length (drop (Suc pos) sels) = length sels - Suc pos" by simp
      ultimately have gt: "pos < task_pos t" "task_pos t < length sels"
        using pos by linarith+
      with pos have "args (sels ! pos) \<noteq> args (sels ! task_pos t)"
        by (intro distinct_map_nth[OF da]) simp_all
      then show ?thesis by (simp add: assigns_to_def)
    next
      case 3
      then obtain e where e: "e \<in> set D1 \<union> set D2" "t \<in> set (entry_tasks pos e)" by auto
      from entry_tasks_target[OF e(2)] have "task_key t = fst e" by simp
      moreover from e(1) dD have "fst e \<noteq> k" unfolding D by auto
      ultimately show ?thesis by (simp add: assigns_to_def)
    qed
  qed
  have this_one: "assigns_to sels ?a k t" if "t \<in> set (entry_tasks pos (k, v))" for t
    using entry_tasks_target[OF that] by (simp add: assigns_to_def)
  have 1: "filter (assigns_to sels ?a k) ?A = []" "filter (assigns_to sels ?a k) ?B1 = []"
    "filter (assigns_to sels ?a k) ?B2 = []" "filter (assigns_to sels ?a k) ?C = []"
    using other by (simp_all only: filter_empty_conv set_append) blast+
  have 3: "filter (assigns_to sels ?a k) (entry_tasks pos (k, v)) = entry_tasks pos (k, v)"
    using this_one by (simp only: filter_id_conv) blast
  show ?thesis
    unfolding ts filter_append 1 3 by simp
qed

lemma resolve_ids_slot:
  assumes res: "resolve_ids fetch sched h self = Inr h'"
    and perm: "\<forall>ts. mset (sched ts) = mset ts"
    and da: "distinct (map args (deques h (selections self)))"
    and dk: "\<forall>f\<in>set (deques h (selections self)). distinct (map fst (dicts h (args f)))"
    and pos: "pos < length (deques h (selections self))"
    and kv: "(k, v) \<in> set (dicts h (args (deques h (selections self) ! pos)))"
  shows "deques h' = deques h
       \<and> (is_id_type_sequence v \<longrightarrow>
           (\<exists>ys. map_of (dicts h' (args (deques h (selections self) ! pos))) k = Some (VList ys)
              \<and> list_all2 (\<lambda>x y. if is_id_type x then fetch x = Inr y else y = x) (elements v) ys))
       \<and> (\<not> is_id_type_sequence v \<and> is_id_type v \<longrightarrow>
           (\<exists>r. fetch v = Inr r \<and> map_of (dicts h' (args (deques h (selections self) ! pos))) k = Some r))
       \<and> (\<not> is_id_type_sequence v \<and> \<not> is_id_type v \<longrightarrow>
           map_of (dicts h' (args (deques h (selections self) ! pos))) k = Some v)"
proof -
  let ?sels = "deques h (selections self)"
  let ?a = "args (?sels ! pos)"
  let ?h1 = "h\<lparr>dicts := (\<lambda>a. if a \<in> args ` set ?sels then map (map_prod id listed) (dicts h a)
                            else dicts h a)\<rparr>"
  let ?ts = "concat (map (field_tasks h) (enumerate 0 ?sels))"
  let ?P = "assigns_to ?sels ?a k"
  let ?E = "entry_tasks pos (k, v)"
  have sc: "scan h 0 ?sels = (?h1, ?ts)" using da dk by (rule scan_spec)
  with res have run: "run_tasks fetch ?sels ?h1 (sched ?ts) = Inr h'"
    by (simp add: resolve_ids_def Let_def)
  have dD: "distinct (map fst (dicts h ?a))" using dk pos by simp
  have F: "filter ?P ?ts = ?E" using da dD pos kv by (rule started_tasks_of_slot)
  have M: "mset (filter ?P (sched ?ts)) = mset ?E"
    using perm F by (metis mset_filter)
  then have S: "set (filter ?P (sched ?ts)) = set ?E" by (rule mset_eq_setD)
  have "?a \<in> args ` set ?sels" using pos by simp
  then have l1: "map_of (dicts ?h1 ?a) k = Some (listed v)"
    using map_of_listed[OF dD kv] by simp
  have dq: "deques h' = deques h"
    using run_tasks_frame(1)[OF run] by simp
  show ?thesis
  proof (cases "is_id_type_sequence v")
    case True
    let ?xs = "elements v"
    let ?ps = "filter (\<lambda>p. is_id_type (snd p)) (enumerate 0 ?xs)"
    have E: "?E = map (\<lambda>p. ResolveSeqId pos (fst p) k (snd p)) ?ps"
      using True by (simp add: entry_tasks_def seq_tasks_def)
    have l: "map_of (dicts ?h1 ?a) k = Some (VList ?xs)"
      using l1 True by (simp add: listed_def)
    have form: "\<forall>t\<in>set (sched ?ts). ?P t \<longrightarrow> (\<exists>pos idx v. t = ResolveSeqId pos idx k v)"
    proof (intro ballI impI)
      fix t assume "t \<in> set (sched ?ts)" "?P t"
      then have "t \<in> set ?E" using S by auto
      then show "\<exists>pos idx v. t = ResolveSeqId pos idx k v" unfolding E by auto
    qed
    have "map task_idx ?E = map fst ?ps" unfolding E by (simp add: comp_def)
    moreover have "distinct (map fst ?ps)" by (rule distinct_map_filter) simp
    ultimately have "distinct (map task_idx ?E)" by simp
    moreover have "mset (map task_idx (filter ?P (sched ?ts))) = mset (map task_idx ?E)"
      using M by (metis mset_map)
    ultimately have dist: "distinct (map task_idx (filter ?P (sched ?ts)))"
      by (metis mset_eq_imp_distinct_iff)
    from run_tasks_seq_slot[OF run l form dist] obtain ys where
      ys: "map_of (dicts h' ?a) k = Some (VList ys)" "length ys = length ?xs"
        "\<forall>t\<in>set (sched ?ts). ?P t \<longrightarrow> fetch (task_val t) = Inr (ys ! task_idx t)"
        "\<forall>j<length ?xs. j \<notin> task_idx ` {t \<in> set (sched ?ts). ?P t} \<longrightarrow> ys ! j = ?xs ! j"
      by blast
    have SE: "{t \<in> set (sched ?ts). ?P t} = set ?E" using S by auto
    have "list_all2 (\<lambda>x y. if is_id_type x then fetch x = Inr y else y = x) ?xs ys"
    proof (rule list_all2_all_nthI)
      show "length ?xs = length ys" using ys(2) by simp
    next
      fix j assume j: "j < length ?xs"
      show "if is_id_type (?xs ! j) then fetch (?xs ! j) = Inr (ys ! j) else ys ! j = ?xs ! j"
      proof (cases "is_id_type (?xs ! j)")
        case True
        with j have "(j, ?xs ! j) \<in> set ?ps" by (simp add: in_set_enumerate_eq)
        then have "ResolveSeqId pos j k (?xs ! j) \<in> set ?E" unfolding E by force
        then have "ResolveSeqId pos j k (?xs ! j) \<in> {t \<in> set (sched ?ts). ?P t}"
          unfolding SE .
        with ys(3) have "fetch (task_val (ResolveSeqId pos j k (?xs ! j)))
            = Inr (ys ! task_idx (ResolveSeqId pos j k (?xs ! j)))" by blast
        with True show ?thesis by simp
      next
        case False
        have "j \<notin> task_idx ` set ?E"
        proof
          assume "j \<in> task_idx ` set ?E"
          then obtain p where "p \<in> set ?ps" "fst p = j" unfolding E by auto
          then have "is_id_type (?xs ! j)" by (auto simp: in_set_enumerate_eq)
          with False show False ..
        qed
        with ys(4) j False show ?thesis unfolding SE by simp
      qed
    qed
    with ys(1) True dq show ?thesis by blast
  next
    case False
    note ns = this
    have form: "\<forall>t\<in>set (sched ?ts). ?P t \<longrightarrow> (\<exists>pos. t = ResolveId pos k v)"
    proof (intro ballI impI)
      fix t assume "t \<in> set (sched ?ts)" "?P t"
      then have "t \<in> set ?E" using S by auto
      then show "\<exists>pos. t = ResolveId pos k v"
        using ns by (auto simp: entry_tasks_def split: if_splits)
    qed
    note r = run_tasks_id_slot[OF run form]
    show ?thesis
    proof (cases "is_id_type v")
      case True
      then have "ResolveId pos k v \<in> set ?E" using ns by (simp add: entry_tasks_def)
      then have "\<exists>t\<in>set (sched ?ts). ?P t" using S by auto
      with r have "\<exists>r. fetch v = Inr r \<and> map_of (dicts h' ?a) k = Some r" by simp
      with True ns dq show ?thesis by simp
    next
      case False
      then have "set ?E = {}" using ns by (simp add: entry_tasks_def)
      then have "\<not> (\<exists>t\<in>set (sched ?ts). ?P t)" using S by auto
      with r have "map_of (dicts h' ?a) k = map_of (dicts ?h1 ?a) k" by simp
      with l1 False ns dq show ?thesis by (simp add: listed_def)
    qed
  qed
qed

text \<open>
  The two conditions on the chain in the property below hold for every chain made by
  \<^verbatim>\<open>select\<close> and \<^verbatim>\<open>select_multiple\<close> from a root Context.
\<close>

lemma distinct_dict_of: "distinct (map fst (dict_of items))"
proof (induction items rule: rev_induct)
  case Nil
  show ?case by (simp add: dict_of_def)
next
  case (snoc x xs)
  then show ?case by (simp add: dict_of_def distinct_update)
qed

lemma from_context_ok: "chain_ok (fst (from_context h ctx)) (snd (from_context h ctx))"
  by (simp add: chain_ok_def from_context_def new_deque_def)

lemma select_ok:
  assumes "chain_ok h ctx"
  shows "chain_ok (fst (select h ctx tn fn as)) (snd (select h ctx tn fn as))"
proof -
  from assms have d: "distinct (map args (deques h (selections ctx)))"
    and l: "\<forall>f\<in>set (deques h (selections ctx)). args f < nxt h \<and> distinct (map fst (dicts h (args f)))"
    by (simp_all add: chain_ok_def list_all_iff)
  from l have "nxt h \<notin> args ` set (deques h (selections ctx))" by auto
  with d l show ?thesis
    by (auto simp: chain_ok_def select_eq list_all_iff select_args_def distinct_dict_of)
qed

lemma select_multiple_deque:
  assumes "select_multiple h self tn kw = Inr (h', self')"
  shows "\<exists>cs. deques h' (selections self')
           = butlast (deques h (selections self))
             @ [Field (type_name (last (deques h (selections self))))
                      (name (last (deques h (selections self))))
                      (args (last (deques h (selections self)))) cs]
         \<and> deques h (selections self) \<noteq> []"
proof (cases "deques h (selections self) = []")
  case True
  with assms show ?thesis
    by (simp add: select_multiple_def deque_copy_def new_deque_def deque_pop_def)
next
  case False
  let ?h2 = "h\<lparr>nxt := Suc (nxt h), deques := (deques h)(nxt h := butlast (deques h (selections self)))\<rparr>"
  obtain h3 cs where nl: "new_leaves ?h2 tn kw [] = (h3, cs)"
    by (cases "new_leaves ?h2 tn kw []") auto
  let ?f = "Field (type_name (last (deques h (selections self)))) (name (last (deques h (selections self))))
              (args (last (deques h (selections self)))) cs"
  let ?h4 = "h3\<lparr>deques := (deques h3)(nxt h := deques h3 (nxt h) @ [?f])\<rparr>"
  have sm: "select_multiple h self tn kw = Inr (?h4, self\<lparr>selections := nxt h\<rparr>)"
    using False nl
    by (simp add: select_multiple_def deque_copy_def new_deque_def deque_pop_def deque_append_def)
  from new_leaves_spec[OF nl] have s: "deques h3 = deques ?h2" by auto
  from sm assms have e: "h' = ?h4" "self' = self\<lparr>selections := nxt h\<rparr>" by simp_all
  show ?thesis unfolding e using s False by auto
qed

lemma select_multiple_ok:
  assumes ok: "chain_ok h ctx" and sm: "select_multiple h ctx tn kw = Inr (h', ctx')"
  shows "chain_ok h' ctx'"
proof -
  let ?sels = "deques h (selections ctx)"
  from select_multiple_deque[OF sm] obtain cs where
    dq: "deques h' (selections ctx')
          = butlast ?sels @ [Field (type_name (last ?sels)) (name (last ?sels)) (args (last ?sels)) cs]"
    and ne: "?sels \<noteq> []" by blast
  from select_multiple_frame[OF sm] have fr: "nxt h \<le> nxt h'"
    "\<forall>a<nxt h. deques h' a = deques h a \<and> dicts h' a = dicts h a" by simp_all
  from ok have d: "distinct (map args ?sels)"
    and l: "\<forall>f\<in>set ?sels. args f < nxt h \<and> distinct (map fst (dicts h (args f)))"
    by (simp_all add: chain_ok_def list_all_iff)
  have m: "map args (deques h' (selections ctx')) = map args ?sels"
  proof -
    have "map args (deques h' (selections ctx')) = map args (butlast ?sels @ [last ?sels])"
      unfolding dq by simp
    with ne show ?thesis by simp
  qed
  have "args f < nxt h' \<and> distinct (map fst (dicts h' (args f)))"
    if "f \<in> set (deques h' (selections ctx'))" for f
  proof -
    from that have "args f \<in> set (map args (deques h' (selections ctx')))" by simp
    then have "args f \<in> set (map args ?sels)" unfolding m .
    then obtain g where g: "g \<in> set ?sels" "args g = args f" by auto
    with l have "args f < nxt h" "distinct (map fst (dicts h (args f)))" by auto
    with fr show ?thesis by auto
  qed
  with d m show ?thesis by (simp add: chain_ok_def list_all_iff)
qed

lemma chain_ok_distinct:
  assumes "chain_ok h ctx"
  shows "distinct (map args (deques h (selections ctx)))"
    and "\<forall>f\<in>set (deques h (selections ctx)). distinct (map fst (dicts h (args f)))"
  using assms by (simp_all add: chain_ok_def list_all_iff)

lemma chain2_eval:
  "deques (fst chain2) (selections (snd chain2))
     = [Field ''Query'' ''container'' (Suc 0) [], Field ''Container'' ''withDirectory'' 3 []]"
  "dicts (fst chain2) (Suc 0) = []"
  "dicts (fst chain2) 3 = [(''path'', VStr ''/src''), (''directory'', VObj ''Directory'' 0 []),
      (''mounts'', VList [VObj ''File'' 0 [], VStr ''plain'', VObj ''Secret'' 0 []])]"
  by (simp_all add: chain2_def select_eq chain1_eval[unfolded One_nat_def] select_args_def
      dict_of_def is_not_def is_same_def MISSING_def as_input_def)

lemma chain2_resolves: "\<exists>h'. resolve_ids fetch0 rev (fst chain2) (snd chain2) = Inr h'"
  by (simp add: resolve_ids_def chain2_eval seq_tasks_def setitem_def fetch0_def enumerate_eq_zip
      upt_rec)

text \<open>
  Claim C5. Let \<^verbatim>\<open>resolve_ids\<close> return, whatever the order in which the scheduler lets
  the tasks complete, on a chain in which no two nodes share an argument dict and no
  dict has a key twice. Then the deque is as before, and for every node of the chain
  and every argument \<open>(k, v)\<close> of its dict before the call, the same dict holds under
  \<open>k\<close> afterwards: the identifier that the fetch for \<open>v\<close> returned, when \<open>v\<close> is a
  handle; a list of the same length whose element is the identifier fetched for the
  element of \<open>v\<close> at the same index where that is a handle, and is that element
  itself elsewhere, when \<open>v\<close> is a sequence with handles; and \<open>v\<close> itself otherwise.
\<close>

theorem resolve_ids_replaces_handles:
  assumes "resolve_ids fetch_id sched h self = Inr h'"
    and "\<forall>ts. mset (sched ts) = mset ts"
    and "distinct (map args (deques h (selections self)))"
    and "\<forall>f\<in>set (deques h (selections self)). distinct (map fst (dicts h (args f)))"
    and "pos < length (deques h (selections self))"
    and "(k, v) \<in> set (dicts h (args (deques h (selections self) ! pos)))"
  shows "deques h' = deques h
       \<and> (is_id_type v \<longrightarrow>
           (\<exists>r. fetch_id v = Inr r
              \<and> map_of (dicts h' (args (deques h (selections self) ! pos))) k = Some r))
       \<and> (is_id_type_sequence v \<longrightarrow>
           (\<exists>ys. map_of (dicts h' (args (deques h (selections self) ! pos))) k = Some (VList ys)
              \<and> list_all2 (\<lambda>x y. if is_id_type x then fetch_id x = Inr y else y = x)
                   (elements v) ys))
       \<and> (\<not> is_id_type v \<and> \<not> is_id_type_sequence v \<longrightarrow>
           map_of (dicts h' (args (deques h (selections self) ! pos))) k = Some v)"
proof -
  have "is_id_type v \<Longrightarrow> \<not> is_id_type_sequence v" by (cases v) simp_all
  with resolve_ids_slot[OF assms] show ?thesis by blast
qed

text \<open>
  An instance: on the chain \<open>chain2\<close>, with the tasks completing in the reverse of the
  order they were started in, the call returns; the handle has become its identifier,
  the list holds the two identifiers at the indices 0 and 2 with the plain element
  between them, and the plain argument is as before.
\<close>

theorem resolve_ids_replaces_handles_witness:
  "case resolve_ids fetch0 rev (fst chain2) (snd chain2) of
     Inl e \<Rightarrow> False
   | Inr h' \<Rightarrow>
       map_of (dicts h' 3) ''directory'' = Some (VScalar ''DirectoryID'' ''Directory'')
     \<and> map_of (dicts h' 3) ''mounts''
         = Some (VList [VScalar ''FileID'' ''File'', VStr ''plain'', VScalar ''SecretID'' ''Secret''])
     \<and> map_of (dicts h' 3) ''path'' = Some (VStr ''/src'')"
proof -
  let ?h = "fst chain2" and ?c = "snd chain2"
  from chain2_resolves obtain h' where r: "resolve_ids fetch0 rev ?h ?c = Inr h'" by blast
  have p: "\<forall>ts::task list. mset (rev ts) = mset ts" by simp
  have da: "distinct (map args (deques ?h (selections ?c)))" by (simp add: chain2_eval)
  have dk: "\<forall>f\<in>set (deques ?h (selections ?c)). distinct (map fst (dicts ?h (args f)))"
    by (simp add: chain2_eval)
  have pos: "1 < length (deques ?h (selections ?c))" by (simp add: chain2_eval)
  have a: "args (deques ?h (selections ?c) ! 1) = 3" by (simp add: chain2_eval)
  have k1: "(''directory'', VObj ''Directory'' 0 []) \<in> set (dicts ?h (args (deques ?h (selections ?c) ! 1)))"
    and k2: "(''mounts'', VList [VObj ''File'' 0 [], VStr ''plain'', VObj ''Secret'' 0 []])
              \<in> set (dicts ?h (args (deques ?h (selections ?c) ! 1)))"
    and k3: "(''path'', VStr ''/src'') \<in> set (dicts ?h (args (deques ?h (selections ?c) ! 1)))"
    by (simp_all add: chain2_eval)
  from resolve_ids_replaces_handles[OF r p da dk pos k1]
  have 1: "map_of (dicts h' 3) ''directory'' = Some (VScalar ''DirectoryID'' ''Directory'')"
    unfolding a by (simp add: fetch0_def)
  from resolve_ids_replaces_handles[OF r p da dk pos k2]
  have 2: "map_of (dicts h' 3) ''mounts''
         = Some (VList [VScalar ''FileID'' ''File'', VStr ''plain'', VScalar ''SecretID'' ''Secret''])"
    unfolding a by (auto simp: fetch0_def list_all2_Cons1)
  from resolve_ids_replaces_handles[OF r p da dk pos k3]
  have 3: "map_of (dicts h' 3) ''path'' = Some (VStr ''/src'')"
    unfolding a by simp
  from 1 2 3 show ?thesis unfolding r by simp
qed

subsection \<open>Executing\<close>

lemma failing_eval:
  "resolve_ids fetch0 (\<lambda>ts. ts) (fst chain1) (failing e) = Inr (fst chain1)"
  "query (fst chain1) (failing e) = Inr (DSLQuery (DSLField ''Query'' ''container'' [] []))"
  "session (failing e) q = Inl e"
  by (simp_all add: failing_def resolve_ids_def query_def build_def chain1_eval
      chain1_eval[unfolded One_nat_def] schema0_def apply_args_def)

text \<open>
  Claim C6. When the references are resolved, the document is built and the session
  raises, \<^verbatim>\<open>execute\<close> raises: for a timeout \<^verbatim>\<open>ExecuteTimeoutError\<close> with the hint to set
  a higher \<^verbatim>\<open>execute_timeout\<close>; for another request error, for a closed transport and
  for a protocol or server error \<^verbatim>\<open>TransportError\<close>; each with the session's exception
  as its cause. For a query error of the transport it raises the error the mapper
  derives from it and the document, with the transport's exception as its cause, and
  when the mapper derives none, the transport's exception itself.
\<close>

theorem execute_maps_transport_failures:
  assumes "resolve_ids fetch_id sched h self = Inr h1"
    and "query h1 self = Inr q"
    and "session self q = Inl e"
  shows "execute fetch_id sched qerr other h self return_type = Inl (execute_except qerr q e)
       \<and> (\<forall>m. e = HttpxTimeoutException m \<longrightarrow>
            execute fetch_id sched qerr other h self return_type
              = Inl (From (ExecuteTimeoutError
                  ''Request timed out. Try setting a higher value in 'execute_timeout' config for this `dagger.Connection()`.'') e))
       \<and> (\<forall>m. e = HttpxRequestError m \<longrightarrow>
            execute fetch_id sched qerr other h self return_type
              = Inl (From (TransportError (''Failed to make request: '' @ m)) e))
       \<and> (\<forall>m. e = TransportClosed m \<longrightarrow>
            execute fetch_id sched qerr other h self return_type
              = Inl (From (TransportError
                  ''Connection to engine has been closed. Make sure you're calling the API within a `dagger.Connection()` context.'') e))
       \<and> (\<forall>m. e = TransportProtocolError m \<or> e = TransportServerError m \<longrightarrow>
            execute fetch_id sched qerr other h self return_type
              = Inl (From (TransportError (''Unexpected response from engine: '' @ m)) e))
       \<and> (\<forall>m p. e = TransportQueryError m p \<longrightarrow>
            execute fetch_id sched qerr other h self return_type
              = Inl (case qerr e q of Some error \<Rightarrow> From error e | None \<Rightarrow> e))"
proof -
  have x: "execute fetch_id sched qerr other h self return_type = Inl (execute_except qerr q e)"
    using assms by (simp add: execute_def)
  show ?thesis unfolding x by auto
qed

text \<open>
  An instance for every kind of failure, on the chain of one selection.
\<close>

theorem execute_maps_transport_failures_witness:
  "execute fetch0 (\<lambda>ts. ts) qerr0 (\<lambda>v t. Inl (TypeError [])) (fst chain1) (failing (HttpxTimeoutException ''read timeout'')) (Some TStr)
     = Inl (From (ExecuteTimeoutError
         ''Request timed out. Try setting a higher value in 'execute_timeout' config for this `dagger.Connection()`.'')
         (HttpxTimeoutException ''read timeout''))
   \<and> execute fetch0 (\<lambda>ts. ts) qerr0 (\<lambda>v t. Inl (TypeError [])) (fst chain1) (failing (HttpxRequestError ''refused'')) (Some TStr)
     = Inl (From (TransportError ''Failed to make request: refused'') (HttpxRequestError ''refused''))
   \<and> execute fetch0 (\<lambda>ts. ts) qerr0 (\<lambda>v t. Inl (TypeError [])) (fst chain1) (failing (TransportClosed ''closed'')) (Some TStr)
     = Inl (From (TransportError
         ''Connection to engine has been closed. Make sure you're calling the API within a `dagger.Connection()` context.'')
         (TransportClosed ''closed''))
   \<and> execute fetch0 (\<lambda>ts. ts) qerr0 (\<lambda>v t. Inl (TypeError [])) (fst chain1) (failing (TransportServerError ''500'')) (Some TStr)
     = Inl (From (TransportError ''Unexpected response from engine: 500'') (TransportServerError ''500''))
   \<and> execute fetch0 (\<lambda>ts. ts) qerr0 (\<lambda>v t. Inl (TypeError [])) (fst chain1)
        (failing (TransportQueryError ''bad'' (VList [VStr ''no such field'']))) (Some TStr)
     = Inl (From (QueryError (VList [VStr ''no such field''])
                    (DSLQuery (DSLField ''Query'' ''container'' [] [])))
              (TransportQueryError ''bad'' (VList [VStr ''no such field''])))
   \<and> execute fetch0 (\<lambda>ts. ts) qerr0 (\<lambda>v t. Inl (TypeError [])) (fst chain1)
        (failing (TransportQueryError ''bad'' VNone)) (Some TStr)
     = Inl (TransportQueryError ''bad'' VNone)"
proof -
  note t = execute_maps_transport_failures[OF failing_eval, where qerr = qerr0
      and other = "\<lambda>v t. Inl (TypeError [])" and return_type = "Some TStr"]
  from t[of "HttpxTimeoutException ''read timeout''"] t[of "HttpxRequestError ''refused''"]
    t[of "TransportClosed ''closed''"] t[of "TransportServerError ''500''"]
    t[of "TransportQueryError ''bad'' (VList [VStr ''no such field''])"]
    t[of "TransportQueryError ''bad'' VNone"]
  show ?thesis by (simp add: qerr0_def)
qed

subsection \<open>Objects from identifiers\<close>




end
